theory Spec2Isabelle
  imports Main "HOL-Library.Multiset" "HOL-Library.Sublist" "HOL-Library.Monad_Syntax"
begin

section \<open>Cards\<close>

text \<open>
  A card is the object \<^verbatim>\<open>{ suit, rank }\<close> pushed by \<^verbatim>\<open>Deck.initialize\<close>
  (game.js): four suits \<^verbatim>\<open>'S','H','D','C'\<close> and the thirteen rank strings
  \<^verbatim>\<open>'A','2',...,'10','J','Q','K'\<close>.
\<close>

datatype suit = Spades | Hearts | Diamonds | Clubs

datatype rank = Ace | R2 | R3 | R4 | R5 | R6 | R7 | R8 | R9 | R10 | Jack | Queen | King

record card =
  suit :: suit
  rank :: rank

text \<open>The table \<^verbatim>\<open>rankOrder\<close> that the evaluator repeats in every branch.\<close>

fun rankOrder :: "rank \<Rightarrow> int" where
  "rankOrder Ace = 14"
| "rankOrder King = 13"
| "rankOrder Queen = 12"
| "rankOrder Jack = 11"
| "rankOrder R10 = 10"
| "rankOrder R9 = 9"
| "rankOrder R8 = 8"
| "rankOrder R7 = 7"
| "rankOrder R6 = 6"
| "rankOrder R5 = 5"
| "rankOrder R4 = 4"
| "rankOrder R3 = 3"
| "rankOrder R2 = 2"

section \<open>JavaScript values used by the evaluator\<close>

text \<open>
  A JavaScript number that results from arithmetic on table lookups: \<open>None\<close> is
  \<^verbatim>\<open>NaN\<close>, which is what \<^verbatim>\<open>rankOrder[undefined]\<close> turns a sum into. All
  scores stay far below \<open>2^53\<close>, so the integers are exact.
\<close>

type_synonym number = "int option"

text \<open>\<^verbatim>\<open>xs[i]\<close>: \<^verbatim>\<open>undefined\<close> (here \<open>None\<close>) outside the array.\<close>

definition at :: "'a list \<Rightarrow> nat \<Rightarrow> 'a option" where
  "at xs i = (if i < length xs then Some (xs ! i) else None)"

text \<open>\<^verbatim>\<open>rankOrder[r]\<close> where \<^verbatim>\<open>r\<close> may be \<^verbatim>\<open>undefined\<close>.\<close>

definition rankOrderOf :: "rank option \<Rightarrow> number" where
  "rankOrderOf r = map_option rankOrder r"

text \<open>
  \<^verbatim>\<open>[...xs].sort((a, b) => key(b) - key(a))\<close>: descending by key; the sort of the
  language is stable, as \<^const>\<open>sort_key\<close> is.
\<close>

definition sortDesc :: "('a \<Rightarrow> int) \<Rightarrow> 'a list \<Rightarrow> 'a list" where
  "sortDesc key xs = sort_key (\<lambda>x. - key x) xs"

text \<open>\<^verbatim>\<open>[...new Set(xs)]\<close>: the distinct elements in order of first occurrence.\<close>

fun setOf :: "'a list \<Rightarrow> 'a list" where
  "setOf [] = []"
| "setOf (x # xs) = x # setOf (filter (\<lambda>y. y \<noteq> x) xs)"

text \<open>
  The object \<^verbatim>\<open>rankCounts\<close>, as the list of its entries in insertion order:
  \<^verbatim>\<open>rankCounts[rank] = (rankCounts[rank] || 0) + 1\<close>.
\<close>

fun countRank :: "rank \<Rightarrow> (rank \<times> int) list \<Rightarrow> (rank \<times> int) list" where
  "countRank r [] = [(r, 1)]"
| "countRank r ((k, n) # m) = (if k = r then (k, n + 1) # m else (k, n) # countRank r m)"

definition rankCountsOf :: "rank list \<Rightarrow> (rank \<times> int) list" where
  "rankCountsOf ranks = foldl (\<lambda>m r. countRank r m) [] ranks"

text \<open>
  \<^verbatim>\<open>Object.keys\<close> and \<^verbatim>\<open>Object.values\<close> list the properties with integer-like keys
  (\<^verbatim>\<open>'2'\<close> to \<^verbatim>\<open>'10'\<close>) first, in ascending numeric order, and then the others in
  insertion order.
\<close>

definition integerKey :: "rank \<Rightarrow> bool" where
  "integerKey r = (r \<notin> {Ace, King, Queen, Jack})"

definition objectEntries :: "(rank \<times> int) list \<Rightarrow> (rank \<times> int) list" where
  "objectEntries m =
     sort_key (\<lambda>e. rankOrder (fst e)) (filter (\<lambda>e. integerKey (fst e)) m)
       @ filter (\<lambda>e. \<not> integerKey (fst e)) m"

definition objectKeys :: "(rank \<times> int) list \<Rightarrow> rank list" where
  "objectKeys m = map fst (objectEntries m)"

definition objectValues :: "(rank \<times> int) list \<Rightarrow> int list" where
  "objectValues m = map snd (objectEntries m)"

section \<open>Hand evaluator (evaluate.js)\<close>

record evaluation =
  rankName :: string
  score :: number
  cards :: "card list"

text \<open>
  The search for five consecutive values in \<^verbatim>\<open>uniqueValues\<close>: the first window
  \<^verbatim>\<open>uniqueValues[i..i+4]\<close> with \<^verbatim>\<open>uniqueValues[i + j] === uniqueValues[i] - j\<close>
  for \<open>j = 1..4\<close> gives \<^verbatim>\<open>straightHigh = uniqueValues[i]\<close>.
\<close>

fun regularStraight :: "int list \<Rightarrow> int option" where
  "regularStraight (a # b # c # d # e # rest) =
     (if b = a - 1 \<and> c = a - 2 \<and> d = a - 3 \<and> e = a - 4 then Some a
      else regularStraight (b # c # d # e # rest))"
| "regularStraight _ = None"

text \<open>
  \<^verbatim>\<open>sortedValues[0] * 100^4 + ... + sortedValues[4] * 100^0\<close>, the loop of the
  Flush and High Card branches, added to \<open>base\<close>.
\<close>

definition positional :: "int \<Rightarrow> int list \<Rightarrow> number" where
  "positional base sortedValues =
     do {
       v0 \<leftarrow> at sortedValues 0;
       v1 \<leftarrow> at sortedValues 1;
       v2 \<leftarrow> at sortedValues 2;
       v3 \<leftarrow> at sortedValues 3;
       v4 \<leftarrow> at sortedValues 4;
       Some (base + v0 * 100 ^ 4 + v1 * 100 ^ 3 + v2 * 100 ^ 2 + v3 * 100 ^ 1 + v4 * 100 ^ 0)
     }"

definition evaluateFiveCards :: "card list \<Rightarrow> evaluation" where
  "evaluateFiveCards cs =
    (let sorted = sortDesc (\<lambda>c. rankOrder (rank c)) cs;
         ranks = map rank sorted;
         suits = map suit sorted;
         rankCounts = rankCountsOf ranks;
         counts = sortDesc (\<lambda>n. n) (objectValues rankCounts);
         isFlush = (\<forall>s \<in> set suits. Some s = at suits 0);
         rankValues = map rankOrder ranks;
         sortedValues = sortDesc (\<lambda>v. v) rankValues;
         uniqueValues = sortDesc (\<lambda>v. v) (setOf sortedValues);
         regular = regularStraight uniqueValues;
         wheel = (regular = None \<and> 14 \<in> set uniqueValues \<and> 5 \<in> set uniqueValues
                  \<and> 4 \<in> set uniqueValues \<and> 3 \<in> set uniqueValues \<and> 2 \<in> set uniqueValues);
         isStraight = (regular \<noteq> None \<or> wheel);
         straightHigh = (case regular of Some h \<Rightarrow> h | None \<Rightarrow> if wheel then 5 else 0);
         keys = objectKeys rankCounts;
         withCount = (\<lambda>n r. map_of rankCounts r = Some n);
         byRankDesc = sortDesc rankOrder
     in
      if isFlush \<and> isStraight \<and> straightHigh = 14 then
        \<lparr>rankName = ''Royal Flush'', score = Some (9000000 + straightHigh), cards = sorted\<rparr>
      else if isFlush \<and> isStraight then
        \<lparr>rankName = ''Straight Flush'', score = Some (8000000 + straightHigh), cards = sorted\<rparr>
      else if at counts 0 = Some 4 then
        \<lparr>rankName = ''Four of a Kind'',
         score = do {
           fourKind \<leftarrow> rankOrderOf (find (withCount 4) keys);
           kicker \<leftarrow> rankOrderOf (find (withCount 1) keys);
           Some (7000000 + fourKind * 100 + kicker) },
         cards = sorted\<rparr>
      else if at counts 0 = Some 3 \<and> at counts 1 = Some 2 then
        \<lparr>rankName = ''Full House'',
         score = do {
           threeKind \<leftarrow> rankOrderOf (find (withCount 3) keys);
           pair \<leftarrow> rankOrderOf (find (withCount 2) keys);
           Some (6000000 + threeKind * 100 + pair) },
         cards = sorted\<rparr>
      else if isFlush then
        \<lparr>rankName = ''Flush'', score = positional 5000000 sortedValues, cards = sorted\<rparr>
      else if isStraight then
        \<lparr>rankName = ''Straight'', score = Some (4000000 + straightHigh), cards = sorted\<rparr>
      else if at counts 0 = Some 3 then
        (let kickers = byRankDesc (filter (withCount 1) keys) in
         \<lparr>rankName = ''Three of a Kind'',
          score = do {
            threeKind \<leftarrow> rankOrderOf (find (withCount 3) keys);
            k0 \<leftarrow> rankOrderOf (at kickers 0);
            k1 \<leftarrow> rankOrderOf (at kickers 1);
            Some (3000000 + threeKind * 10000 + k0 * 100 + k1) },
          cards = sorted\<rparr>)
      else if at counts 0 = Some 2 \<and> at counts 1 = Some 2 then
        (let pairs = byRankDesc (filter (withCount 2) keys) in
         \<lparr>rankName = ''Two Pair'',
          score = do {
            p0 \<leftarrow> rankOrderOf (at pairs 0);
            p1 \<leftarrow> rankOrderOf (at pairs 1);
            kicker \<leftarrow> rankOrderOf (find (withCount 1) keys);
            Some (2000000 + p0 * 10000 + p1 * 100 + kicker) },
          cards = sorted\<rparr>)
      else if at counts 0 = Some 2 then
        (let kickers = byRankDesc (filter (withCount 1) keys) in
         \<lparr>rankName = ''One Pair'',
          score = do {
            pair \<leftarrow> rankOrderOf (find (withCount 2) keys);
            k0 \<leftarrow> rankOrderOf (at kickers 0);
            k1 \<leftarrow> rankOrderOf (at kickers 1);
            k2 \<leftarrow> rankOrderOf (at kickers 2);
            Some (1000000 + pair * 10000 + k0 * 100 + k1 * 10 + k2) },
          cards = sorted\<rparr>)
      else
        \<lparr>rankName = ''High Card'', score = positional 0 sortedValues, cards = sorted\<rparr>)"

text \<open>
  \<^verbatim>\<open>getCombinations(arr, k)\<close>. The recursion lowers \<open>k\<close> by one and stops at
  \<open>k = 1\<close> or at \<open>k = arr.length\<close>; entered with \<open>k = 0\<close> on a non-empty array it
  passes both tests and descends through the negative numbers until the call stack is
  exhausted, which is the result \<open>None\<close> here (the caller turns it into the
  \<^verbatim>\<open>RangeError\<close>). In the loop \<open>i\<close> runs up to \<^verbatim>\<open>arr.length - k\<close> inclusive,
  and not at all when \<open>k\<close> exceeds the length.
\<close>

fun getCombinations :: "'a list \<Rightarrow> nat \<Rightarrow> 'a list list option" where
  "getCombinations arr k =
     (if k = 1 then Some (map (\<lambda>x. [x]) arr)
      else if k = length arr then Some [arr]
      else if k = 0 then None
      else map_option concat
             (those (map (\<lambda>i. map_option (map ((#) (arr ! i)))
                                  (getCombinations (drop (i + 1) arr) (k - 1)))
                         [0..<length arr + 1 - k])))"

declare getCombinations.simps [simp del]

datatype error = TypeError | RangeError

text \<open>The result \<^verbatim>\<open>{ rank: 'Invalid', score: 0 }\<close>; it carries no cards.\<close>

definition invalid :: evaluation where
  "invalid = \<lparr>rankName = ''Invalid'', score = Some 0, cards = []\<rparr>"

text \<open>
  One round of the loop over the combinations: the pair is (bestHand, bestScore). The
  test \<^verbatim>\<open>evaluation.score > bestScore\<close> is false when the score is \<^verbatim>\<open>NaN\<close>.
\<close>

definition keepBest :: "card list \<Rightarrow> evaluation option \<times> int \<Rightarrow> evaluation option \<times> int" where
  "keepBest combo best =
     (let evaluation = evaluateFiveCards combo in
      case score evaluation of
        None \<Rightarrow> best
      | Some v \<Rightarrow> if snd best < v then (Some evaluation, v) else best)"

text \<open>
  \<^verbatim>\<open>evaluateHand\<close>: \<open>Inr None\<close> is the result \<^verbatim>\<open>null\<close> (no combination scored
  above the initial \<^verbatim>\<open>bestScore = 0\<close>).
\<close>

definition evaluateHand :: "card list \<Rightarrow> error + evaluation option" where
  "evaluateHand sevenCards =
     (if length sevenCards < 5 then Inr (Some invalid)
      else case getCombinations sevenCards 5 of
             None \<Rightarrow> Inl RangeError
           | Some combinations \<Rightarrow> Inr (fst (fold keepBest combinations (None, 0))))"

section \<open>Players and pots (game.js)\<close>

text \<open>
  The class \<^verbatim>\<open>Player\<close>; \<open>isBot\<close> is the field that the subclass \<^verbatim>\<open>Bot\<close> sets
  and that is absent (falsy) on a human seat. A slot of \<open>hand\<close> is \<open>None\<close> where
  the deck had run out and \<^verbatim>\<open>deal()\<close> returned \<^verbatim>\<open>undefined\<close>. Chip amounts are
  integers.
\<close>

record player =
  pid :: string
  pname :: string
  chips :: int
  hand :: "card option list"
  currentBet :: int
  hasFolded :: bool
  isAllIn :: bool
  hasActed :: bool
  isBot :: bool

definition newPlayer :: "string \<Rightarrow> string \<Rightarrow> int \<Rightarrow> player" where
  "newPlayer i n c =
     \<lparr>pid = i, pname = n, chips = c, hand = [], currentBet = 0, hasFolded = False,
      isAllIn = False, hasActed = False, isBot = False\<rparr>"

text \<open>\<^verbatim>\<open>Player.bet(amount)\<close>: the returned \<^verbatim>\<open>betAmount\<close> and the player after the call.\<close>

definition bet :: "int \<Rightarrow> player \<Rightarrow> int \<times> player" where
  "bet amount p =
     (let betAmount = min amount (chips p);
          p1 = p\<lparr>chips := chips p - betAmount, currentBet := currentBet p + betAmount\<rparr>;
          p2 = (if chips p1 = 0 then p1\<lparr>isAllIn := True\<rparr> else p1)
      in (betAmount, p2))"

definition fold_hand :: "player \<Rightarrow> player" where
  "fold_hand p = p\<lparr>hasFolded := True\<rparr>"

definition resetForNewHand :: "player \<Rightarrow> player" where
  "resetForNewHand p =
     p\<lparr>hand := [], currentBet := 0, hasFolded := False, isAllIn := False, hasActed := False\<rparr>"

definition resetForNewBettingRound :: "player \<Rightarrow> player" where
  "resetForNewBettingRound p = p\<lparr>currentBet := 0, hasActed := False\<rparr>"

text \<open>A pot of the \<^verbatim>\<open>PotManager\<close>: \<^verbatim>\<open>{ amount, contributors: Set of player ids }\<close>.\<close>

record pot =
  amount :: int
  contributors :: "string set"

definition emptyPot :: pot where
  "emptyPot = \<lparr>amount = 0, contributors = {}\<rparr>"

text \<open>\<^verbatim>\<open>new PotManager()\<close>: the main pot alone.\<close>

definition newPots :: "pot list" where
  "newPots = [emptyPot]"

text \<open>
  The \<^verbatim>\<open>players.forEach\<close> of one round of \<^verbatim>\<open>collectBets\<close>: every player with a bet
  in front moves \<^verbatim>\<open>Math.min(p.currentBet, minBet)\<close> of it into the current pot and is
  entered in its contributors.
\<close>

fun collectFrom :: "int \<Rightarrow> player list \<Rightarrow> pot \<Rightarrow> player list \<times> pot" where
  "collectFrom minBet [] currentPot = ([], currentPot)"
| "collectFrom minBet (p # ps) currentPot =
     (if 0 < currentBet p then
        (let contribution = min (currentBet p) minBet;
             p' = p\<lparr>currentBet := currentBet p - contribution\<rparr>;
             pot' = currentPot\<lparr>amount := amount currentPot + contribution,
                               contributors := insert (pid p) (contributors currentPot)\<rparr>;
             rest = collectFrom minBet ps pot'
         in (p' # fst rest, snd rest))
      else
        (let rest = collectFrom minBet ps currentPot in (p # fst rest, snd rest)))"

text \<open>
  \<^verbatim>\<open>Math.min(...activeBets.filter(p => p.currentBet > 0).map(p => p.currentBet))\<close>,
  taken inside the loop, where that list is not empty.
\<close>

definition minBetOf :: "player list \<Rightarrow> int" where
  "minBetOf players = Min (set (map currentBet (filter (\<lambda>p. 0 < currentBet p) players)))"

text \<open>
  One round of the \<^verbatim>\<open>while\<close> loop. The local array \<^verbatim>\<open>contributors\<close> holds the
  players that had a bet in front before the round; \<^verbatim>\<open>anyoneCapped\<close> reads their
  fields after it.
\<close>

definition collectRound :: "player list \<Rightarrow> pot list \<Rightarrow> player list \<times> pot list" where
  "collectRound players pots =
     (let minBet = minBetOf players;
          pots1 = (if pots = [] then [emptyPot] else pots);
          currentPot = last pots1;
          res = collectFrom minBet players currentPot;
          players' = fst res;
          pots2 = butlast pots1 @ [snd res];
          anyoneCapped = (\<exists>(p, p') \<in> set (zip players players').
                             0 < currentBet p \<and> isAllIn p' \<and> currentBet p' = 0)
      in if anyoneCapped \<and> (\<exists>p \<in> set players'. 0 < currentBet p)
         then (players', pots2 @ [emptyPot])
         else (players', pots2))"

lemma collectFrom_length: "length (fst (collectFrom m ps q)) = length ps"
  by (induction ps arbitrary: q) (simp_all add: Let_def)

lemma collectFrom_bets:
  "map currentBet (fst (collectFrom m ps q)) =
     map (\<lambda>p. if 0 < currentBet p then currentBet p - min (currentBet p) m else currentBet p) ps"
  by (induction ps arbitrary: q) (simp_all add: Let_def)

lemma filter_length_le:
  assumes "\<And>x. x \<in> set xs \<Longrightarrow> P (f x) \<Longrightarrow> P x"
  shows "length (filter P (map f xs)) \<le> length (filter P xs)"
  using assms
proof (induction xs)
  case Nil
  then show ?case by simp
next
  case (Cons a xs)
  have "length (filter P (map f xs)) \<le> length (filter P xs)"
    using Cons.IH Cons.prems by simp
  moreover have "P (f a) \<Longrightarrow> P a"
    using Cons.prems[of a] by simp
  ultimately show ?case by auto
qed

lemma filter_length_less:
  assumes "\<And>x. x \<in> set xs \<Longrightarrow> P (f x) \<Longrightarrow> P x"
      and "\<exists>x \<in> set xs. P x \<and> \<not> P (f x)"
  shows "length (filter P (map f xs)) < length (filter P xs)"
  using assms
proof (induction xs)
  case Nil
  then show ?case by simp
next
  case (Cons a xs)
  have le: "length (filter P (map f xs)) \<le> length (filter P xs)"
    using Cons.prems(1) by (intro filter_length_le) simp
  have pa: "P (f a) \<Longrightarrow> P a"
    using Cons.prems(1)[of a] by simp
  show ?case
  proof (cases "P a \<and> \<not> P (f a)")
    case True
    then show ?thesis using le by simp
  next
    case False
    then have ex: "\<exists>x \<in> set xs. P x \<and> \<not> P (f x)"
      using Cons.prems(2) by auto
    have "length (filter P (map f xs)) < length (filter P xs)"
      using Cons.IH Cons.prems(1) ex by simp
    then show ?thesis using pa by auto
  qed
qed

lemma minBetOf_attained:
  assumes "\<exists>p \<in> set players. 0 < currentBet p"
  shows "\<exists>p \<in> set players. 0 < currentBet p \<and> currentBet p = minBetOf players"
proof -
  let ?S = "set (map currentBet (filter (\<lambda>p. 0 < currentBet p) players))"
  have "finite ?S" by simp
  moreover have "?S \<noteq> {}" using assms by (auto simp: filter_empty_conv)
  ultimately have "Min ?S \<in> ?S" by (rule Min_in)
  then show ?thesis by (auto simp: minBetOf_def)
qed

lemma collectRound_players:
  "map currentBet (fst (collectRound players pots)) =
     map (\<lambda>p. if 0 < currentBet p then currentBet p - min (currentBet p) (minBetOf players)
               else currentBet p) players"
  by (simp add: collectRound_def Let_def collectFrom_bets)

lemma collectRound_decreases:
  assumes "\<exists>p \<in> set players. 0 < currentBet p"
  shows "length (filter (\<lambda>b. 0 < b) (map currentBet (fst (collectRound players pots))))
           < length (filter (\<lambda>b. 0 < b) (map currentBet players))"
proof -
  obtain q where q: "q \<in> set players" "0 < currentBet q" "currentBet q = minBetOf players"
    using minBetOf_attained[OF assms] by blast
  let ?f = "\<lambda>b::int. if 0 < b then b - min b (minBetOf players) else b"
  have eq: "map currentBet (fst (collectRound players pots)) = map ?f (map currentBet players)"
    by (simp add: collectRound_players o_def)
  have "length (filter (\<lambda>b. 0 < b) (map ?f (map currentBet players)))
          < length (filter (\<lambda>b. 0 < b) (map currentBet players))"
  proof (rule filter_length_less)
    fix x :: int
    assume "0 < (if 0 < x then x - min x (minBetOf players) else x)"
    then show "0 < x" by (simp split: if_splits)
  next
    have "currentBet q \<in> set (map currentBet players)"
      using q(1) by simp
    moreover have "0 < currentBet q \<and> \<not> 0 < ?f (currentBet q)"
      using q(2,3) by simp
    ultimately show "\<exists>x \<in> set (map currentBet players). 0 < x \<and> \<not> 0 < ?f x"
      by blast
  qed
  then show ?thesis by (simp only: eq)
qed

text \<open>
  The \<^verbatim>\<open>while\<close> loop of \<^verbatim>\<open>collectBets\<close>. The array \<^verbatim>\<open>activeBets\<close> holds the same
  player objects as \<^verbatim>\<open>players\<close>, and the players it leaves out have no positive bet
  and are never written to, so \<^verbatim>\<open>activeBets.some(p => p.currentBet > 0)\<close> is the same
  test on \<^verbatim>\<open>players\<close>.
\<close>

function collectLoop :: "player list \<Rightarrow> pot list \<Rightarrow> player list \<times> pot list" where
  "collectLoop players pots =
     (if \<exists>p \<in> set players. 0 < currentBet p
      then (let r = collectRound players pots in collectLoop (fst r) (snd r))
      else (players, pots))"
  by pat_completeness auto
termination
proof (relation "measure (\<lambda>a. length (filter (\<lambda>b. 0 < b) (map currentBet (fst a))))")
  show "wf (measure (\<lambda>a. length (filter (\<lambda>b. 0 < b) (map currentBet (fst a)))))"
    by simp
next
  fix players :: "player list" and pots :: "pot list" and x
  assume "\<exists>p \<in> set players. 0 < currentBet p" and "x = collectRound players pots"
  then show "((fst x, snd x), (players, pots))
        \<in> measure (\<lambda>a. length (filter (\<lambda>b. 0 < b) (map currentBet (fst a))))"
    using collectRound_decreases[of players pots] by simp
qed

declare collectLoop.simps [simp del]

definition collectBets :: "player list \<Rightarrow> pot list \<Rightarrow> player list \<times> pot list" where
  "collectBets players pots =
     (let activeBets = filter (\<lambda>p. 0 < currentBet p) players in
      if length activeBets = 0 then (players, pots) else collectLoop players pots)"

text \<open>
  The \<^verbatim>\<open>while\<close> loop of \<^verbatim>\<open>collectBets\<close> stopped after \<open>n\<close> rounds: the players and the
  pots as they stand then (as the loop leaves them, if it ends before).
\<close>

fun afterRounds :: "nat \<Rightarrow> player list \<times> pot list \<Rightarrow> player list \<times> pot list" where
  "afterRounds 0 st = st"
| "afterRounds (Suc n) st =
     (if \<exists>p \<in> set (fst st). 0 < currentBet p
      then afterRounds n (collectRound (fst st) (snd st))
      else st)"

section \<open>Deck (game.js)\<close>

text \<open>\<^verbatim>\<open>Deck.deal\<close> is \<^verbatim>\<open>this.cards.pop()\<close>: the last card, \<^verbatim>\<open>undefined\<close> on an empty deck.\<close>

definition deal :: "card list \<Rightarrow> card option \<times> card list" where
  "deal deck = (if deck = [] then (None, []) else (Some (last deck), butlast deck))"

fun dealCards :: "nat \<Rightarrow> card list \<Rightarrow> card option list \<times> card list" where
  "dealCards 0 deck = ([], deck)"
| "dealCards (Suc n) deck =
     (let d = deal deck; rest = dealCards n (snd d) in (fst d # fst rest, snd rest))"

section \<open>Room and hand state (game.js, server)\<close>

datatype phase = Preflop | Flop | Turn | River | Showdown

text \<open>
  An entry of \<^verbatim>\<open>handState.winners\<close>, with the fields \<^verbatim>\<open>playerId\<close>, \<^verbatim>\<open>playerName\<close>,
  \<^verbatim>\<open>hand\<close> (\<^verbatim>\<open>null\<close> for an uncontested win), \<^verbatim>\<open>share\<close> and \<^verbatim>\<open>potIndex\<close>
  (absent for an uncontested win; \<^verbatim>\<open>isMainPot\<close> is \<^verbatim>\<open>potIndex === 0\<close>).
\<close>

record winner =
  winnerId :: string
  winnerName :: string
  winnerHand :: "evaluation option"
  share :: int
  potIndex :: "nat option"

text \<open>
  The class \<^verbatim>\<open>HandState\<close>. \<open>hsPot\<close> is its field \<^verbatim>\<open>pot\<close>, \<open>hsCurrentBet\<close> its field
  \<^verbatim>\<open>currentBet\<close>, \<open>pots\<close> is \<^verbatim>\<open>potManager.pots\<close>. The map \<^verbatim>\<open>roundBets\<close> is never
  read by the server and is left out.
\<close>

record handState =
  phase :: phase
  communityCards :: "card option list"
  hsPot :: int
  hsCurrentBet :: int
  dealerIndex :: nat
  smallBlindIndex :: nat
  bigBlindIndex :: nat
  currentPlayerIndex :: int
  blindsPosted :: bool
  winners :: "winner list"
  pots :: "pot list"

definition newHandState :: handState where
  "newHandState =
     \<lparr>phase = Preflop, communityCards = [], hsPot = 0, hsCurrentBet = 0, dealerIndex = 0,
      smallBlindIndex = 0, bigBlindIndex = 0, currentPlayerIndex = 0, blindsPosted = False,
      winners = [], pots = newPots\<rparr>"

text \<open>
  The entry \<^verbatim>\<open>rooms[roomId]\<close>; \<open>handState = None\<close> is \<^verbatim>\<open>handState: null\<close>. The
  action log, the timers and the broadcasts do not act on the fields modelled here.
\<close>

record room =
  players :: "player list"
  gameStarted :: bool
  handState :: "handState option"
  deck :: "card list"
  roomDealerIndex :: nat

text \<open>
  A call of the server either returns, \<open>Inr\<close> with the room it leaves, or throws,
  \<open>Inl\<close> with the exception and the room as it is at the throw.
\<close>

type_synonym outcome = "(error \<times> room) + room"

definition roomOf :: "outcome \<Rightarrow> room" where
  "roomOf out = (case out of Inl (e, r) \<Rightarrow> r | Inr r \<Rightarrow> r)"

text \<open>\<^verbatim>\<open>xs[i]\<close> for a number \<open>i\<close> that may be negative.\<close>

definition atI :: "'a list \<Rightarrow> int \<Rightarrow> 'a option" where
  "atI xs i = (if 0 \<le> i \<and> i < int (length xs) then Some (xs ! nat i) else None)"

text \<open>\<^verbatim>\<open>xs.findIndex(P)\<close>, with \<open>None\<close> for the result \<open>-1\<close>.\<close>

fun findIndex :: "('a \<Rightarrow> bool) \<Rightarrow> 'a list \<Rightarrow> nat option" where
  "findIndex P [] = None"
| "findIndex P (x # xs) = (if P x then Some 0 else map_option Suc (findIndex P xs))"

definition indexNumber :: "nat option \<Rightarrow> int" where
  "indexNumber k = (case k of None \<Rightarrow> - 1 | Some i \<Rightarrow> int i)"

text \<open>
  Arrays of players obtained by \<^verbatim>\<open>players.filter\<close> hold the player objects themselves;
  here they are the lists of the positions of those objects in \<^verbatim>\<open>players\<close>.
\<close>

definition positionsWhere :: "(player \<Rightarrow> bool) \<Rightarrow> player list \<Rightarrow> nat list" where
  "positionsWhere P ps = filter (\<lambda>i. P (ps ! i)) [0..<length ps]"

text \<open>\<^verbatim>\<open>players.filter(p => !p.hasFolded && p.chips > 0)\<close>\<close>

definition activePositions :: "player list \<Rightarrow> nat list" where
  "activePositions ps = positionsWhere (\<lambda>p. \<not> hasFolded p \<and> 0 < chips p) ps"

definition modify :: "nat \<Rightarrow> (player \<Rightarrow> player) \<Rightarrow> player list \<Rightarrow> player list" where
  "modify i f ps = ps[i := f (ps ! i)]"

section \<open>Player actions (server, handlePlayerAction)\<close>

datatype action = Fold | Check | Call | Raise int

text \<open>
  The call, written out three times in the source (the \<^verbatim>\<open>call\<close> case and the two
  places where a bot's raise is turned into a call).
\<close>

definition callFor :: "nat \<Rightarrow> player list \<times> handState \<Rightarrow> player list \<times> handState" where
  "callFor i st =
     (let ps = fst st; hs = snd st; player = ps ! i;
          callAmount = hsCurrentBet hs - currentBet player;
          b = (if chips player < callAmount then bet (chips player) player
               else bet callAmount player)
      in (ps[i := (snd b)\<lparr>hasActed := True\<rparr>], hs\<lparr>hsPot := hsPot hs + fst b\<rparr>))"

text \<open>
  The \<^verbatim>\<open>switch\<close> on the action type; \<open>None\<close> is a \<^verbatim>\<open>return\<close> from inside it.
  \<open>i\<close> is the position of \<^verbatim>\<open>player\<close>, \<open>activePlayers\<close> the positions computed before
  the action.
\<close>

definition applyAction ::
  "nat \<Rightarrow> nat list \<Rightarrow> action \<Rightarrow> player list \<times> handState \<Rightarrow> (player list \<times> handState) option" where
  "applyAction i activePlayers act st =
     (let ps = fst st; hs = snd st; player = ps ! i in
      case act of
        Fold \<Rightarrow> Some (ps[i := (fold_hand player)\<lparr>hasActed := True\<rparr>], hs)
      | Check \<Rightarrow>
          if currentBet player < hsCurrentBet hs then None
          else Some (ps[i := player\<lparr>hasActed := True\<rparr>], hs)
      | Call \<Rightarrow> Some (callFor i st)
      | Raise amt \<Rightarrow>
          if amt \<le> 0 then None
          else
            (let minRaise = (if phase hs = Preflop then 20 else 10);
                 raiseCallAmount = hsCurrentBet hs - currentBet player;
                 raiseAboveCall = amt - raiseCallAmount;
                 totalBet = currentBet player + amt
             in
               if raiseAboveCall < minRaise \<and> amt < chips player then
                 (if isBot player then Some (callFor i st) else None)
               else if totalBet \<le> hsCurrentBet hs then
                 (if isBot player then Some (callFor i st) else None)
               else if chips player + currentBet player < totalBet then None
               else
                 (let b = bet amt player;
                      hs' = hs\<lparr>hsCurrentBet := currentBet (snd b), hsPot := hsPot hs + fst b\<rparr>;
                      ps1 = ps[i := snd b];
                      ps2 = fold (\<lambda>j qs. if pid (qs ! j) \<noteq> pid player
                                           then modify j (\<lambda>q. q\<lparr>hasActed := False\<rparr>) qs else qs)
                                 activePlayers ps1
                  in Some (modify i (\<lambda>q. q\<lparr>hasActed := True\<rparr>) ps2, hs'))))"

text \<open>
  The bounded search for the next seat:
  \<^verbatim>\<open>while ((players[next].hasFolded || players[next].chips === 0) && attempts < players.length)\<close>.
\<close>

function nextSeat :: "player list \<Rightarrow> nat \<Rightarrow> nat \<Rightarrow> nat" where
  "nextSeat ps nextIndexInFull attempts =
     (if (hasFolded (ps ! nextIndexInFull) \<or> chips (ps ! nextIndexInFull) = 0)
         \<and> attempts < length ps
      then nextSeat ps ((nextIndexInFull + 1) mod length ps) (attempts + 1)
      else nextIndexInFull)"
  by pat_completeness auto
termination
  by (relation "measure (\<lambda>(ps, i, attempts). length ps - attempts)") auto

declare nextSeat.simps [simp del]

definition handlePlayerAction :: "room \<Rightarrow> string \<Rightarrow> action \<Rightarrow> outcome" where
  "handlePlayerAction r playerId act =
     (case handState r of
        None \<Rightarrow> Inr r
      | Some hs \<Rightarrow>
         (case findIndex (\<lambda>p. pid p = playerId) (players r) of
            None \<Rightarrow> Inr r
          | Some i \<Rightarrow>
             (let activePlayers = activePositions (players r) in
              case atI activePlayers (currentPlayerIndex hs) of
                None \<Rightarrow> Inl (TypeError, r)
              | Some c \<Rightarrow>
                  if pid (players r ! c) \<noteq> playerId then Inr r
                  else if hasActed (players r ! i) \<and> \<not> isAllIn (players r ! i) then Inr r
                  else
                    (case applyAction i activePlayers act (players r, hs) of
                       None \<Rightarrow> Inr r
                     | Some (ps, hs1) \<Rightarrow>
                        (let activeAfterAction = activePositions ps;
                             currentPlayerId = pid (ps ! c);
                             currentIndexInFull =
                               indexNumber (findIndex (\<lambda>p. pid p = currentPlayerId) ps);
                             start = nat ((currentIndexInFull + 1) mod int (length ps));
                             nextIndexInFull = nextSeat ps start 0;
                             nextPlayer = ps ! nextIndexInFull;
                             k = indexNumber
                                   (findIndex (\<lambda>j. pid (ps ! j) = pid nextPlayer) activeAfterAction);
                             hs2 = hs1\<lparr>currentPlayerIndex := (if k < 0 then 0 else k)\<rparr>
                         in Inr (r\<lparr>players := ps, handState := Some hs2\<rparr>))))))"

section \<open>Starting a hand (server, startHand)\<close>

text \<open>\<^verbatim>\<open>players.forEach(player => { player.hand = deck.dealCards(2) })\<close>\<close>

fun dealHands :: "player list \<Rightarrow> card list \<Rightarrow> player list \<times> card list" where
  "dealHands [] dk = ([], dk)"
| "dealHands (p # ps) dk =
     (let d = dealCards 2 dk; rest = dealHands ps (snd d)
      in (p\<lparr>hand := fst d\<rparr> # fst rest, snd rest))"

text \<open>
  \<^verbatim>\<open>startHand\<close>; \<open>shuffled\<close> is the deck that \<^verbatim>\<open>new Deck()\<close> and \<^verbatim>\<open>shuffle()\<close>
  produce. The two blinds are computed before either is posted.
\<close>

definition startHand :: "room \<Rightarrow> card list \<Rightarrow> room" where
  "startHand r shuffled =
     (if length (players r) < 2 then r
      else
        (let dealt = dealHands (map resetForNewHand (players r)) shuffled;
             ps = fst dealt;
             r1 = r\<lparr>players := ps, deck := snd dealt\<rparr>;
             activePlayers = positionsWhere (\<lambda>p. 0 < chips p) ps
         in
           if length activePlayers < 2 then r1
           else
             (let n = length activePlayers;
                  d = (roomDealerIndex r + 1) mod n;
                  sb = (d + 1) mod n;
                  bb = (sb + 1) mod n;
                  smallBlind = min 10 (chips (ps ! (activePlayers ! sb)));
                  bigBlind = min 20 (chips (ps ! (activePlayers ! bb)));
                  ps1 = modify (activePlayers ! sb) (\<lambda>p. snd (bet smallBlind p)) ps;
                  ps2 = modify (activePlayers ! bb) (\<lambda>p. snd (bet bigBlind p)) ps1;
                  hs = newHandState
                         \<lparr>dealerIndex := d, smallBlindIndex := sb, bigBlindIndex := bb,
                          hsCurrentBet := bigBlind, hsPot := smallBlind + bigBlind,
                          currentPlayerIndex := int ((bb + 1) mod n), blindsPosted := True\<rparr>
              in r1\<lparr>players := ps2, handState := Some hs, roomDealerIndex := d\<rparr>)))"

section \<open>Ending a hand (server, endHand)\<close>

text \<open>
  \<^verbatim>\<open>evaluateHand([...player.hand, ...communityCards])\<close> on slots that may be
  \<^verbatim>\<open>undefined\<close>: with fewer than five entries the result is the invalid one; otherwise
  an \<^verbatim>\<open>undefined\<close> entry belongs to some five-card combination, where
  \<^verbatim>\<open>sorted.map(c => c.rank)\<close> throws.
\<close>

definition evaluateSlots :: "card option list \<Rightarrow> error + evaluation option" where
  "evaluateSlots cs =
     (if length cs < 5 then Inr (Some invalid)
      else if None \<in> set cs then Inl TypeError
      else evaluateHand (map the cs))"

text \<open>\<^verbatim>\<open>activePlayers.map(player => ({ player, evaluation }))\<close>, by position.\<close>

fun evaluateAll ::
  "player list \<Rightarrow> card option list \<Rightarrow> nat list \<Rightarrow> error + (nat \<times> evaluation option) list" where
  "evaluateAll ps community [] = Inr []"
| "evaluateAll ps community (i # rest) =
     (case evaluateSlots (hand (ps ! i) @ community) of
        Inl e \<Rightarrow> Inl e
      | Inr ev \<Rightarrow>
         (case evaluateAll ps community rest of
            Inl e \<Rightarrow> Inl e
          | Inr evs \<Rightarrow> Inr ((i, ev) # evs)))"

text \<open>\<^verbatim>\<open>Math.max(...xs)\<close> on a non-empty list: \<^verbatim>\<open>NaN\<close> as soon as one entry is.\<close>

definition mathMax :: "number list \<Rightarrow> number" where
  "mathMax xs = (if None \<in> set xs then None else Some (Max (set (map the xs))))"

text \<open>\<^verbatim>\<open>a === b\<close> on numbers: \<^verbatim>\<open>NaN\<close> equals nothing.\<close>

definition sameNumber :: "number \<Rightarrow> number \<Rightarrow> bool" where
  "sameNumber a b = (a \<noteq> None \<and> a = b)"

text \<open>
  The body of \<^verbatim>\<open>pots.forEach((pot, potIndex) => ...)\<close> at showdown, acting on the
  players and on \<^verbatim>\<open>handState.winners\<close>. Reading \<^verbatim>\<open>e.evaluation.score\<close> of a
  \<^verbatim>\<open>null\<close> evaluation throws, before anything has been paid from this pot. The pot
  itself is not written to.
\<close>

definition payPot ::
  "(nat \<times> evaluation option) list \<Rightarrow> nat \<Rightarrow> pot \<Rightarrow> player list \<times> winner list
     \<Rightarrow> error + player list \<times> winner list" where
  "payPot evaluations k p acc =
     (let ps = fst acc; ws = snd acc in
      if amount p = 0 then Inr acc
      else
        (let eligibleEvaluations = filter (\<lambda>e. pid (ps ! fst e) \<in> contributors p) evaluations in
         if length eligibleEvaluations = 0 then Inr acc
         else if \<exists>e \<in> set eligibleEvaluations. snd e = None then Inl TypeError
         else
           (let scoreOf = (\<lambda>e. score (the (snd e)));
                bestScore = mathMax (map scoreOf eligibleEvaluations);
                ws1 = filter (\<lambda>e. sameNumber (scoreOf e) bestScore) eligibleEvaluations;
                sh = amount p div int (length ws1)
            in Inr (fold (\<lambda>e qs. modify (fst e) (\<lambda>q. q\<lparr>chips := chips q + sh\<rparr>) qs) ws1 ps,
                    ws @ map (\<lambda>e. \<lparr>winnerId = pid (ps ! fst e), winnerName = pname (ps ! fst e),
                                    winnerHand = snd e, share = sh, potIndex = Some k\<rparr>) ws1))))"

fun payPots ::
  "(nat \<times> evaluation option) list \<Rightarrow> nat \<Rightarrow> pot list \<Rightarrow> player list \<times> winner list
     \<Rightarrow> (error \<times> player list \<times> winner list) + player list \<times> winner list" where
  "payPots evaluations k [] acc = Inr acc"
| "payPots evaluations k (p # rest) acc =
     (case payPot evaluations k p acc of
        Inl e \<Rightarrow> Inl (e, acc)
      | Inr acc' \<Rightarrow> payPots evaluations (k + 1) rest acc')"

text \<open>
  The statement \<^verbatim>\<open>if (activePlayers.length === 1) { ... } else { ... }\<close> of
  \<^verbatim>\<open>endHand\<close> and the assignment of the phase after it: \<open>ps\<close> are the players and
  \<open>hs1\<close> the hand state once the bets are collected. \<^verbatim>\<open>handState.potManager\<close> is set
  by the constructor and never cleared, so the branches for a missing pot manager are not
  taken.
\<close>

definition settle :: "nat list \<Rightarrow> player list \<Rightarrow> handState \<Rightarrow> room \<Rightarrow> outcome" where
  "settle activePlayers ps hs1 r =
     (if length activePlayers = 1 then
        (let totalWinnings = sum_list (map amount (pots hs1));
             w = activePlayers ! 0;
             ps1 = modify w (\<lambda>q. q\<lparr>chips := chips q + totalWinnings\<rparr>) ps;
             ws = [\<lparr>winnerId = pid (ps1 ! w), winnerName = pname (ps1 ! w),
                    winnerHand = None, share = totalWinnings, potIndex = None\<rparr>]
         in Inr (r\<lparr>players := ps1,
                    handState := Some (hs1\<lparr>winners := ws, phase := Showdown\<rparr>)\<rparr>))
      else
        (case evaluateAll ps (communityCards hs1) activePlayers of
           Inl e \<Rightarrow> Inl (e, r\<lparr>players := ps, handState := Some hs1\<rparr>)
         | Inr evaluations \<Rightarrow>
            (case payPots evaluations 0 (pots hs1) (ps, []) of
               Inl (e, ps1, ws) \<Rightarrow>
                 Inl (e, r\<lparr>players := ps1, handState := Some (hs1\<lparr>winners := ws\<rparr>)\<rparr>)
             | Inr (ps1, ws) \<Rightarrow>
                 Inr (r\<lparr>players := ps1,
                        handState := Some (hs1\<lparr>winners := ws, phase := Showdown\<rparr>)\<rparr>))))"

text \<open>
  \<^verbatim>\<open>endHand\<close>: the non-folded players are listed first, then the bets in front of the
  players are collected, then the pots are paid.
\<close>

definition endHand :: "room \<Rightarrow> outcome" where
  "endHand r =
     (case handState r of
        None \<Rightarrow> Inr r
      | Some hs \<Rightarrow>
         (let activePlayers = positionsWhere (\<lambda>p. \<not> hasFolded p) (players r);
              c = collectBets (players r) (pots hs)
          in settle activePlayers (fst c) (hs\<lparr>pots := snd c\<rparr>) r))"

section \<open>Closing a betting round (server, processBettingRound)\<close>

text \<open>
  \<^verbatim>\<open>while (players[nextIndex].hasFolded || players[nextIndex].chips === 0) nextIndex = (nextIndex + 1) % players.length\<close>:
  the loop has no bound of its own; \<open>None\<close> is the run that never leaves it.
\<close>

partial_function (option) seekSeat :: "player list \<Rightarrow> nat \<Rightarrow> nat option" where
  "seekSeat ps nextIndex =
     (if hasFolded (ps ! nextIndex) \<or> chips (ps ! nextIndex) = 0
      then seekSeat ps ((nextIndex + 1) mod length ps)
      else Some nextIndex)"

declare seekSeat.simps [code]

text \<open>The cards and the phase after \<^verbatim>\<open>Move to next phase\<close>, for a phase other than the river.\<close>

definition nextStreet :: "handState \<Rightarrow> card list \<Rightarrow> handState \<times> card list" where
  "nextStreet hs dk =
     (if phase hs = Preflop then
        (let d = dealCards 3 dk in (hs\<lparr>communityCards := fst d, phase := Flop\<rparr>, snd d))
      else if phase hs = Flop then
        (let d = deal dk in (hs\<lparr>communityCards := communityCards hs @ [fst d], phase := Turn\<rparr>, snd d))
      else if phase hs = Turn then
        (let d = deal dk in (hs\<lparr>communityCards := communityCards hs @ [fst d], phase := River\<rparr>, snd d))
      else (hs, dk))"

text \<open>
  \<^verbatim>\<open>processBettingRound\<close>; \<open>None\<close> when the search for the first seat after the dealer
  does not return.
\<close>

definition processBettingRound :: "room \<Rightarrow> outcome option" where
  "processBettingRound r =
     (case handState r of
        None \<Rightarrow> Some (Inr r)
      | Some hs \<Rightarrow>
         (let ps = players r; activePlayers = activePositions ps in
          if length activePlayers \<le> 1 then Some (endHand r)
          else
            (let allActed = (\<forall>i \<in> set activePlayers. hasActed (ps ! i) \<or> isAllIn (ps ! i));
                 allBetsEqual = (\<forall>i \<in> set activePlayers.
                                   currentBet (ps ! i) = hsCurrentBet hs \<or> isAllIn (ps ! i))
             in
               if allActed \<and> allBetsEqual then
                 (let c = collectBets ps (pots hs);
                      hs1 = hs\<lparr>pots := snd c\<rparr>
                  in
                    if phase hs1 = River then
                      Some (endHand (r\<lparr>players := fst c, handState := Some hs1\<rparr>))
                    else
                      (let st = nextStreet hs1 (deck r);
                           ps1 = fold (\<lambda>i. modify i resetForNewBettingRound) activePlayers (fst c);
                           hs2 = (fst st)\<lparr>hsCurrentBet := 0\<rparr>;
                           r1 = r\<lparr>players := ps1, handState := Some hs2, deck := snd st\<rparr>
                       in
                         case at activePlayers (dealerIndex hs2) of
                           None \<Rightarrow> Some (Inl (TypeError, r1))
                         | Some dealerPos \<Rightarrow>
                            (let dealerIndexInAll =
                                   indexNumber (findIndex (\<lambda>p. pid p = pid (ps1 ! dealerPos)) ps1);
                                 start = nat ((dealerIndexInAll + 1) mod int (length ps1))
                             in
                               case seekSeat ps1 start of
                                 None \<Rightarrow> None
                               | Some nextIndex \<Rightarrow>
                                  (let nextPlayer = ps1 ! nextIndex;
                                       k = indexNumber
                                             (findIndex (\<lambda>j. pid (ps1 ! j) = pid nextPlayer)
                                                activePlayers)
                                   in Some (Inr (r1\<lparr>handState :=
                                                       Some (hs2\<lparr>currentPlayerIndex := k\<rparr>)\<rparr>))))))
               else Some (Inr r))))"

section \<open>States of a hand\<close>

text \<open>
  The quantity of the conservation invariant: the chips of all players, the bets in
  front of them and the amounts of all pots.
\<close>

definition totalChips :: "room \<Rightarrow> int" where
  "totalChips r =
     sum_list (map chips (players r)) + sum_list (map currentBet (players r))
       + (case handState r of None \<Rightarrow> 0 | Some hs \<Rightarrow> sum_list (map amount (pots hs)))"

text \<open>
  The states of a hand between its start and its settlement, from a room \<open>r0\<close> in which
  at least two players hold chips and nobody holds a negative amount: the state after
  \<^verbatim>\<open>startHand\<close> (cards dealt, blinds posted), then any submitted action that
  \<^verbatim>\<open>handlePlayerAction\<close> returns from, and any call of \<^verbatim>\<open>processBettingRound\<close> that
  returns without having settled the hand (settlement leaves the phase at showdown).
\<close>

inductive inHand :: "room \<Rightarrow> room \<Rightarrow> bool" for r0 :: room where
  start:
    "2 \<le> length (positionsWhere (\<lambda>p. 0 < chips p) (players r0)) \<Longrightarrow>
     \<forall>p \<in> set (players r0). 0 \<le> chips p \<Longrightarrow>
     inHand r0 (startHand r0 shuffled)"
| action:
    "inHand r0 s \<Longrightarrow> handlePlayerAction s playerId act = Inr s' \<Longrightarrow> inHand r0 s'"
| street:
    "inHand r0 s \<Longrightarrow> processBettingRound s = Some (Inr s') \<Longrightarrow>
     handState s' = Some hs' \<Longrightarrow> phase hs' \<noteq> Showdown \<Longrightarrow> inHand r0 s'"

section \<open>Notions used in the statements and proofs\<close>

text \<open>
  What \<^verbatim>\<open>collectBets\<close> leaves of a player (a positive bet is gone, anything else is
  untouched), the sum of the positive bets, and what one round of the loop leaves of a
  player.
\<close>

definition drained :: "player \<Rightarrow> player" where
  "drained p = (if 0 < currentBet p then p\<lparr>currentBet := 0\<rparr> else p)"

definition posBets :: "player list \<Rightarrow> int" where
  "posBets ps = sum_list (map (\<lambda>p. if 0 < currentBet p then currentBet p else 0) ps)"

definition taken :: "int \<Rightarrow> player \<Rightarrow> player" where
  "taken m p = (if 0 < currentBet p then p\<lparr>currentBet := currentBet p - min (currentBet p) m\<rparr> else p)"

text \<open>
  The chips a list of players holds, in stacks and in bets; a player, and a room, in which
  no stack, no bet and no street bet is negative.
\<close>

definition funds :: "player list \<Rightarrow> int" where
  "funds ps = sum_list (map (\<lambda>p. chips p + currentBet p) ps)"

definition fair :: "player \<Rightarrow> bool" where
  "fair p = (0 \<le> chips p \<and> 0 \<le> currentBet p)"

definition nonNegative :: "room \<Rightarrow> bool" where
  "nonNegative r =
     ((\<forall>p \<in> set (players r). 0 \<le> chips p \<and> 0 \<le> currentBet p)
      \<and> (case handState r of None \<Rightarrow> True | Some hs \<Rightarrow> 0 \<le> hsCurrentBet hs))"

text \<open>
  For the settlement: the players with their chips blanked (two lists with the same
  seats differ in chips only), the payment of a share, and the three lists that
  \<^verbatim>\<open>endHand\<close> computes for a pot: its eligible evaluations, the winners among them and
  their entries in \<^verbatim>\<open>handState.winners\<close>.
\<close>

definition seats :: "player list \<Rightarrow> player list" where
  "seats ps = map (\<lambda>p. p\<lparr>chips := 0\<rparr>) ps"

definition pay :: "int \<Rightarrow> player \<Rightarrow> player" where
  "pay sh q = q\<lparr>chips := chips q + sh\<rparr>"

definition eligibleOf :: "player list \<Rightarrow> pot \<Rightarrow> (nat \<times> evaluation option) list \<Rightarrow> (nat \<times> evaluation option) list" where
  "eligibleOf ps p evs = filter (\<lambda>e. pid (ps ! fst e) \<in> contributors p) evs"

definition winnersOf :: "(nat \<times> evaluation option) list \<Rightarrow> (nat \<times> evaluation option) list" where
  "winnersOf el = filter (\<lambda>e. sameNumber (score (the (snd e)))
                               (mathMax (map (\<lambda>e. score (the (snd e))) el))) el"

definition entries :: "player list \<Rightarrow> int \<Rightarrow> nat \<Rightarrow> (nat \<times> evaluation option) list \<Rightarrow> winner list" where
  "entries ps sh k es =
     map (\<lambda>e. \<lparr>winnerId = pid (ps ! fst e), winnerName = pname (ps ! fst e),
                winnerHand = snd e, share = sh, potIndex = Some k\<rparr>) es"

section \<open>Example hands and players\<close>

definition wheel :: "card list" where
  "wheel = [\<lparr>suit = Clubs, rank = Ace\<rparr>, \<lparr>suit = Diamonds, rank = R2\<rparr>,
            \<lparr>suit = Hearts, rank = R3\<rparr>, \<lparr>suit = Spades, rank = R4\<rparr>,
            \<lparr>suit = Clubs, rank = R5\<rparr>]"

text \<open>A player as the side-pot script builds one: \<^verbatim>\<open>new Player(id, name, chips)\<close>, then \<^verbatim>\<open>bet(chips)\<close>.\<close>

definition allInPlayer :: "string \<Rightarrow> string \<Rightarrow> int \<Rightarrow> player" where
  "allInPlayer i n c = snd (bet c (newPlayer i n c))"

text \<open>A two-seat room before its first hand, the deck it is dealt from, and the room once
  the blinds are posted.\<close>

definition demoDeck :: "card list" where
  "demoDeck = [\<lparr>suit = Spades, rank = Ace\<rparr>, \<lparr>suit = Spades, rank = King\<rparr>,
     \<lparr>suit = Spades, rank = Queen\<rparr>, \<lparr>suit = Spades, rank = Jack\<rparr>, \<lparr>suit = Spades, rank = R10\<rparr>,
     \<lparr>suit = Hearts, rank = R2\<rparr>, \<lparr>suit = Diamonds, rank = R3\<rparr>, \<lparr>suit = Hearts, rank = R7\<rparr>,
     \<lparr>suit = Diamonds, rank = R9\<rparr>, \<lparr>suit = Hearts, rank = R4\<rparr>, \<lparr>suit = Diamonds, rank = R8\<rparr>]"

definition lobby :: room where
  "lobby = \<lparr>players = [newPlayer ''a'' ''Ann'' 1000, newPlayer ''b'' ''Bob'' 1000],
            gameStarted = True, handState = None, deck = [], roomDealerIndex = 0\<rparr>"

definition seat :: "string \<Rightarrow> string \<Rightarrow> int \<Rightarrow> int \<Rightarrow> bool \<Rightarrow> card option list \<Rightarrow> player" where
  "seat i n c b acted h =
     \<lparr>pid = i, pname = n, chips = c, hand = h, currentBet = b, hasFolded = False,
      isAllIn = False, hasActed = acted, isBot = False\<rparr>"

definition annCards :: "card option list" where
  "annCards = [Some \<lparr>suit = Diamonds, rank = R8\<rparr>, Some \<lparr>suit = Hearts, rank = R4\<rparr>]"

definition bobCards :: "card option list" where
  "bobCards = [Some \<lparr>suit = Diamonds, rank = R9\<rparr>, Some \<lparr>suit = Hearts, rank = R7\<rparr>]"

definition blindsState :: handState where
  "blindsState =
     \<lparr>phase = Preflop, communityCards = [], hsPot = 30, hsCurrentBet = 20, dealerIndex = 1,
      smallBlindIndex = 0, bigBlindIndex = 1, currentPlayerIndex = 0, blindsPosted = True,
      winners = [], pots = [\<lparr>amount = 0, contributors = {}\<rparr>]\<rparr>"

definition afterBlinds :: room where
  "afterBlinds =
     \<lparr>players = [seat ''a'' ''Ann'' 990 10 False annCards, seat ''b'' ''Bob'' 980 20 False bobCards],
      gameStarted = True, handState = Some blindsState,
      deck = [\<lparr>suit = Spades, rank = Ace\<rparr>, \<lparr>suit = Spades, rank = King\<rparr>,
              \<lparr>suit = Spades, rank = Queen\<rparr>, \<lparr>suit = Spades, rank = Jack\<rparr>,
              \<lparr>suit = Spades, rank = R10\<rparr>, \<lparr>suit = Hearts, rank = R2\<rparr>,
              \<lparr>suit = Diamonds, rank = R3\<rparr>],
      roomDealerIndex = 1\<rparr>"

text \<open>The same hand after Ann has called, after Bob has checked, and on the flop.\<close>

definition afterCall :: room where
  "afterCall =
     afterBlinds
       \<lparr>players := [seat ''a'' ''Ann'' 980 20 True annCards, seat ''b'' ''Bob'' 980 20 False bobCards],
        handState := Some (blindsState\<lparr>hsPot := 40, currentPlayerIndex := 1\<rparr>)\<rparr>"

definition afterCheck :: room where
  "afterCheck =
     afterBlinds
       \<lparr>players := [seat ''a'' ''Ann'' 980 20 True annCards, seat ''b'' ''Bob'' 980 20 True bobCards],
        handState := Some (blindsState\<lparr>hsPot := 40, currentPlayerIndex := 0\<rparr>)\<rparr>"

definition flopState :: handState where
  "flopState =
     blindsState
       \<lparr>phase := Flop,
        communityCards := [Some \<lparr>suit = Diamonds, rank = R3\<rparr>, Some \<lparr>suit = Hearts, rank = R2\<rparr>,
                           Some \<lparr>suit = Spades, rank = R10\<rparr>],
        hsPot := 40, hsCurrentBet := 0, currentPlayerIndex := 0,
        pots := [\<lparr>amount = 40, contributors = {''a'', ''b''}\<rparr>]\<rparr>"

definition onFlop :: room where
  "onFlop =
     afterBlinds
       \<lparr>players := [seat ''a'' ''Ann'' 980 0 False annCards, seat ''b'' ''Bob'' 980 0 False bobCards],
        handState := Some flopState,
        deck := [\<lparr>suit = Spades, rank = Ace\<rparr>, \<lparr>suit = Spades, rank = King\<rparr>,
                 \<lparr>suit = Spades, rank = Queen\<rparr>, \<lparr>suit = Spades, rank = Jack\<rparr>]\<rparr>"

text \<open>
  The same hand further on, with no more betting: the table on a street with \<open>n\<close> board
  cards out, the flags telling whether Ann and Bob have acted and \<open>k\<close> the seat to act;
  the table on the river once both have checked; and the room that the last call of
  \<^verbatim>\<open>processBettingRound\<close> leaves, Bob having won the pot of 40 with the higher cards.
\<close>

definition boardCards :: "card option list" where
  "boardCards = [Some \<lparr>suit = Diamonds, rank = R3\<rparr>, Some \<lparr>suit = Hearts, rank = R2\<rparr>,
                 Some \<lparr>suit = Spades, rank = R10\<rparr>, Some \<lparr>suit = Spades, rank = Jack\<rparr>,
                 Some \<lparr>suit = Spades, rank = Queen\<rparr>]"

definition tableAt :: "phase \<Rightarrow> nat \<Rightarrow> bool \<Rightarrow> bool \<Rightarrow> int \<Rightarrow> room" where
  "tableAt ph n a b k =
     \<lparr>players = [seat ''a'' ''Ann'' 980 0 a annCards, seat ''b'' ''Bob'' 980 0 b bobCards],
      gameStarted = True,
      handState = Some (flopState\<lparr>phase := ph, communityCards := take n boardCards,
                                  currentPlayerIndex := k\<rparr>),
      deck = take (7 - n) [\<lparr>suit = Spades, rank = Ace\<rparr>, \<lparr>suit = Spades, rank = King\<rparr>,
                           \<lparr>suit = Spades, rank = Queen\<rparr>, \<lparr>suit = Spades, rank = Jack\<rparr>],
      roomDealerIndex = 1\<rparr>"

definition riverChecked :: room where
  "riverChecked = tableAt River 5 True True 0"

definition shown :: room where
  "shown =
     riverChecked
       \<lparr>players := [seat ''a'' ''Ann'' 980 0 True annCards, seat ''b'' ''Bob'' 1020 0 True bobCards],
        handState := Some (flopState
          \<lparr>phase := Showdown, communityCards := boardCards, currentPlayerIndex := 0,
           winners := [\<lparr>winnerId = ''b'', winnerName = ''Bob'',
                        winnerHand = Some \<lparr>rankName = ''High Card'', score = Some 1211100907,
                           cards = [\<lparr>suit = Spades, rank = Queen\<rparr>, \<lparr>suit = Spades, rank = Jack\<rparr>,
                                    \<lparr>suit = Spades, rank = R10\<rparr>, \<lparr>suit = Diamonds, rank = R9\<rparr>,
                                    \<lparr>suit = Hearts, rank = R7\<rparr>]\<rparr>,
                        share = 40, potIndex = Some 0\<rparr>]\<rparr>)\<rparr>"

text \<open>A hand on the river with both players in, all bets collected into one pot of 200,
  and the room the settlement leaves.\<close>

definition riverState :: handState where
  "riverState =
     blindsState
       \<lparr>phase := River,
        communityCards := [Some \<lparr>suit = Diamonds, rank = R3\<rparr>, Some \<lparr>suit = Hearts, rank = R2\<rparr>,
                           Some \<lparr>suit = Spades, rank = R10\<rparr>, Some \<lparr>suit = Spades, rank = Jack\<rparr>,
                           Some \<lparr>suit = Spades, rank = Ace\<rparr>],
        hsPot := 200, hsCurrentBet := 0, currentPlayerIndex := 0,
        pots := [\<lparr>amount = 200, contributors = {''a'', ''b''}\<rparr>]\<rparr>"

definition riverTable :: room where
  "riverTable =
     afterBlinds
       \<lparr>players := [seat ''a'' ''Ann'' 900 0 True annCards, seat ''b'' ''Bob'' 900 0 True bobCards],
        handState := Some riverState,
        deck := [\<lparr>suit = Spades, rank = King\<rparr>, \<lparr>suit = Spades, rank = Queen\<rparr>]\<rparr>"

definition settledOnce :: room where
  "settledOnce = roomOf (endHand riverTable)"

text \<open>A nine-high straight flush, a seven-high hand of no pair, and seven cards holding the
  royal flush in spades.\<close>

definition straightFlushNine :: "card list" where
  "straightFlushNine =
     [\<lparr>suit = Spades, rank = R9\<rparr>, \<lparr>suit = Spades, rank = R8\<rparr>, \<lparr>suit = Spades, rank = R7\<rparr>,
      \<lparr>suit = Spades, rank = R6\<rparr>, \<lparr>suit = Spades, rank = R5\<rparr>]"

definition sevenHigh :: "card list" where
  "sevenHigh =
     [\<lparr>suit = Spades, rank = R7\<rparr>, \<lparr>suit = Hearts, rank = R5\<rparr>, \<lparr>suit = Diamonds, rank = R4\<rparr>,
      \<lparr>suit = Clubs, rank = R3\<rparr>, \<lparr>suit = Spades, rank = R2\<rparr>]"

definition royalSeven :: "card list" where
  "royalSeven =
     [\<lparr>suit = Spades, rank = Ace\<rparr>, \<lparr>suit = Spades, rank = King\<rparr>, \<lparr>suit = Spades, rank = Queen\<rparr>,
      \<lparr>suit = Spades, rank = Jack\<rparr>, \<lparr>suit = Spades, rank = R10\<rparr>, \<lparr>suit = Hearts, rank = R2\<rparr>,
      \<lparr>suit = Diamonds, rank = R3\<rparr>]"

text \<open>The three players of the first scenario of the side-pot script.\<close>

definition trio :: "player list" where
  "trio = [allInPlayer ''A'' ''Alice'' 1000, allInPlayer ''B'' ''Bob'' 100,
           allInPlayer ''C'' ''Charlie'' 1000]"

section \<open>Player.bet\<close>

text \<open>
  C9. For every requested amount and every player with non-negative chips,
  \<^verbatim>\<open>bet(amount)\<close> wagers exactly \<open>min amount chips\<close>: that is the value returned, the
  chips go down by it and stay non-negative, the current bet goes up by it, and the
  all-in flag is set when the chips have reached zero and left as it was otherwise.
\<close>

theorem bet_never_overdraws:
  assumes "0 \<le> chips p"
  shows "fst (bet a p) = min a (chips p)
       \<and> chips (snd (bet a p)) = chips p - min a (chips p)
       \<and> 0 \<le> chips (snd (bet a p))
       \<and> currentBet (snd (bet a p)) = currentBet p + min a (chips p)
       \<and> (chips (snd (bet a p)) = 0 \<longrightarrow> isAllIn (snd (bet a p)))
       \<and> (chips (snd (bet a p)) \<noteq> 0 \<longrightarrow> isAllIn (snd (bet a p)) = isAllIn p)"
  using assms by (auto simp: bet_def Let_def min_def)

theorem bet_never_overdraws_witness:
  "0 \<le> chips (newPlayer ''A'' ''Alice'' 100)
   \<and> fst (bet 250 (newPlayer ''A'' ''Alice'' 100)) = 100
   \<and> chips (snd (bet 250 (newPlayer ''A'' ''Alice'' 100))) = 0
   \<and> currentBet (snd (bet 250 (newPlayer ''A'' ''Alice'' 100))) = 100
   \<and> isAllIn (snd (bet 250 (newPlayer ''A'' ''Alice'' 100)))"
  using bet_never_overdraws [of "newPlayer ''A'' ''Alice'' 100" 250]
  by (simp add: newPlayer_def)

section \<open>The wheel\<close>

text \<open>
  C8. The five cards A\<open>\<clubsuit>\<close> 2\<open>\<diamondsuit>\<close> 3\<open>\<heartsuit>\<close> 4\<open>\<spadesuit>\<close> 5\<open>\<clubsuit>\<close> evaluate to a
  Straight with score 4,000,005: the ace plays low, the high card is the five, and the
  same result comes back from \<^verbatim>\<open>evaluateHand\<close>.
\<close>

theorem wheel_is_five_high_straight:
  "rankName (evaluateFiveCards wheel) = ''Straight''
   \<and> score (evaluateFiveCards wheel) = Some 4000005
   \<and> evaluateHand wheel = Inr (Some (evaluateFiveCards wheel))"
  unfolding wheel_def by code_simp

theorem wheel_is_five_high_straight_witness:
  "score (evaluateFiveCards wheel) = Some (4000000 + 5)
   \<and> score (evaluateFiveCards wheel) \<noteq> Some (4000000 + 14)"
  using wheel_is_five_high_straight by simp

section \<open>collectBets\<close>

lemma collectLoop_done:
  "\<not> (\<exists>p \<in> set ps. 0 < currentBet p) \<Longrightarrow> collectLoop ps pts = (ps, pts)"
  by (simp add: collectLoop.simps)

lemma collectLoop_step:
  "\<exists>p \<in> set ps. 0 < currentBet p \<Longrightarrow>
   collectLoop ps pts = collectLoop (fst (collectRound ps pts)) (snd (collectRound ps pts))"
  by (subst collectLoop.simps) (simp add: Let_def)

lemma ladder_three:
  assumes "currentBet a = 1000" "currentBet b = 100" "currentBet c = 1000" "isAllIn b"
  shows "snd (collectBets [a, b, c] newPots) =
            [\<lparr>amount = 300, contributors = {pid a, pid b, pid c}\<rparr>,
             \<lparr>amount = 1800, contributors = {pid a, pid c}\<rparr>]"
  using assms
  apply (simp add: collectBets_def newPots_def emptyPot_def)
  apply (subst collectLoop_step, simp)
  apply (simp add: collectRound_def minBetOf_def Let_def emptyPot_def)
  apply (subst collectLoop_step, simp)
  apply (simp add: collectRound_def minBetOf_def Let_def emptyPot_def)
  apply (subst collectLoop_done, simp)
  apply auto
  done

lemma ladder_four:
  assumes "currentBet a = 1000" "currentBet b = 200" "currentBet c = 500" "currentBet d = 1000"
    and "isAllIn b" "isAllIn c"
  shows "snd (collectBets [a, b, c, d] newPots) =
            [\<lparr>amount = 800, contributors = {pid a, pid b, pid c, pid d}\<rparr>,
             \<lparr>amount = 900, contributors = {pid a, pid c, pid d}\<rparr>,
             \<lparr>amount = 1000, contributors = {pid a, pid d}\<rparr>]"
  using assms
  apply (simp add: collectBets_def newPots_def emptyPot_def)
  apply (subst collectLoop_step, simp)
  apply (simp add: collectRound_def minBetOf_def Let_def emptyPot_def)
  apply (subst collectLoop_step, simp)
  apply (simp add: collectRound_def minBetOf_def Let_def emptyPot_def)
  apply (subst collectLoop_step, simp)
  apply (simp add: collectRound_def minBetOf_def Let_def emptyPot_def)
  apply (subst collectLoop_done, simp)
  apply auto
  done

text \<open>
  C3. Players A, B, C with current bets 1000, 100, 1000, B all-in (A and C all-in or
  not), collected into a fresh pot manager, give a main pot of 300 with contributors
  A, B, C and a side pot of 1800 with contributors A, C. Players A, B, C, D with current
  bets 1000, 200, 500, 1000, B and C all-in, give pots of 800, 900 and 1000 with
  contributors A, B, C, D, then A, C, D, then A, D.
\<close>

theorem side_pot_ladder:
  assumes "currentBet a = 1000" "currentBet b = 100" "currentBet c = 1000" "isAllIn b"
    and "currentBet a' = 1000" "currentBet b' = 200" "currentBet c' = 500"
        "currentBet d' = 1000" "isAllIn b'" "isAllIn c'"
  shows "snd (collectBets [a, b, c] newPots) =
            [\<lparr>amount = 300, contributors = {pid a, pid b, pid c}\<rparr>,
             \<lparr>amount = 1800, contributors = {pid a, pid c}\<rparr>]
       \<and> snd (collectBets [a', b', c', d'] newPots) =
            [\<lparr>amount = 800, contributors = {pid a', pid b', pid c', pid d'}\<rparr>,
             \<lparr>amount = 900, contributors = {pid a', pid c', pid d'}\<rparr>,
             \<lparr>amount = 1000, contributors = {pid a', pid d'}\<rparr>]"
  using ladder_three [OF assms(1-4)] ladder_four [OF assms(5-10)] by simp

theorem side_pot_ladder_witness:
  "snd (collectBets [allInPlayer ''A'' ''Alice'' 1000, allInPlayer ''B'' ''Bob'' 100,
                     allInPlayer ''C'' ''Charlie'' 1000] newPots) =
     [\<lparr>amount = 300, contributors = {''A'', ''B'', ''C''}\<rparr>,
      \<lparr>amount = 1800, contributors = {''A'', ''C''}\<rparr>]
   \<and> snd (collectBets [allInPlayer ''A'' ''Alice'' 1000, allInPlayer ''B'' ''Bob'' 200,
                       allInPlayer ''C'' ''Charlie'' 500, allInPlayer ''D'' ''Dave'' 1000] newPots) =
     [\<lparr>amount = 800, contributors = {''A'', ''B'', ''C'', ''D''}\<rparr>,
      \<lparr>amount = 900, contributors = {''A'', ''C'', ''D''}\<rparr>,
      \<lparr>amount = 1000, contributors = {''A'', ''D''}\<rparr>]"
  using side_pot_ladder [of "allInPlayer ''A'' ''Alice'' 1000" "allInPlayer ''B'' ''Bob'' 100"
      "allInPlayer ''C'' ''Charlie'' 1000" "allInPlayer ''A'' ''Alice'' 1000"
      "allInPlayer ''B'' ''Bob'' 200" "allInPlayer ''C'' ''Charlie'' 500"
      "allInPlayer ''D'' ''Dave'' 1000"]
  by (simp add: allInPlayer_def bet_def newPlayer_def)

section \<open>Illegal and out-of-turn submissions\<close>

lemma applyAction_rejects:
  assumes "\<not> isBot (ps ! i)"
    and "(act = Check \<and> currentBet (ps ! i) < hsCurrentBet hs)
       \<or> (\<exists>a. act = Raise a \<and>
             (a \<le> 0
              \<or> currentBet (ps ! i) + a \<le> hsCurrentBet hs
              \<or> chips (ps ! i) < a
              \<or> (a - (hsCurrentBet hs - currentBet (ps ! i))
                    < (if phase hs = Preflop then 20 else 10)
                  \<and> a < chips (ps ! i))))"
  shows "applyAction i active act (ps, hs) = None"
  using assms by (auto simp: applyAction_def Let_def split: if_splits)

text \<open>
  C7. For a human seat, a submission that is out of turn (the seat to act is not this
  player's), a check below the street's bet, a raise of an amount \<open>\<le> 0\<close>, a raise whose
  total does not exceed the street's bet, a raise of more than the player's chips, or a
  raise under the minimum that does not commit the whole stack leaves the room as it
  was: every field of every player and of the hand state. The call returns normally
  whenever the seat to act exists (it throws, still without a change, when
  \<^verbatim>\<open>currentPlayerIndex\<close> points at no active player).
\<close>

theorem illegal_actions_change_nothing:
  assumes "handState r = Some hs"
    and "findIndex (\<lambda>p. pid p = playerId) (players r) = Some i"
    and "\<not> isBot (players r ! i)"
    and "(\<forall>c. atI (activePositions (players r)) (currentPlayerIndex hs) = Some c
              \<longrightarrow> pid (players r ! c) \<noteq> playerId)
       \<or> (act = Check \<and> currentBet (players r ! i) < hsCurrentBet hs)
       \<or> (\<exists>a. act = Raise a \<and>
             (a \<le> 0
              \<or> currentBet (players r ! i) + a \<le> hsCurrentBet hs
              \<or> chips (players r ! i) < a
              \<or> (a - (hsCurrentBet hs - currentBet (players r ! i))
                    < (if phase hs = Preflop then 20 else 10)
                  \<and> a < chips (players r ! i))))"
  shows "roomOf (handlePlayerAction r playerId act) = r
       \<and> (atI (activePositions (players r)) (currentPlayerIndex hs) \<noteq> None
            \<longrightarrow> handlePlayerAction r playerId act = Inr r)"
proof (cases "\<forall>c. atI (activePositions (players r)) (currentPlayerIndex hs) = Some c
              \<longrightarrow> pid (players r ! c) \<noteq> playerId")
  case True
  then show ?thesis
    using assms(1,2)
    by (auto simp: handlePlayerAction_def roomOf_def Let_def split: option.splits)
next
  case False
  then have "applyAction i (activePositions (players r)) act (players r, hs) = None"
    using assms(3,4) by (intro applyAction_rejects) auto
  then show ?thesis
    using assms(1,2)
    by (auto simp: handlePlayerAction_def roomOf_def Let_def split: option.splits)
qed

lemma startHand_lobby: "startHand lobby demoDeck = afterBlinds"
  unfolding lobby_def demoDeck_def afterBlinds_def blindsState_def seat_def annCards_def bobCards_def
  by code_simp

theorem illegal_actions_change_nothing_witness:
  "handlePlayerAction afterBlinds ''a'' Check = Inr afterBlinds
   \<and> currentBet (players afterBlinds ! 0) < hsCurrentBet blindsState"
proof -
  have 1: "handState afterBlinds = Some blindsState"
    by (simp add: afterBlinds_def)
  have 2: "findIndex (\<lambda>p. pid p = ''a'') (players afterBlinds) = Some 0"
    by (simp add: afterBlinds_def seat_def)
  have 3: "\<not> isBot (players afterBlinds ! 0)"
    by (simp add: afterBlinds_def seat_def)
  have 4: "currentBet (players afterBlinds ! 0) < hsCurrentBet blindsState"
    by (simp add: afterBlinds_def blindsState_def seat_def)
  have 5: "atI (activePositions (players afterBlinds)) (currentPlayerIndex blindsState) \<noteq> None"
    unfolding afterBlinds_def blindsState_def seat_def by code_simp
  show ?thesis
    using illegal_actions_change_nothing [OF 1 2 3, of Check] 4 5 by simp
qed

section \<open>Scores across categories\<close>

text \<open>
  C2. The claim is that a hand of a higher category always gets the strictly greater
  score. The code gives the straight flush 9\<open>\<spadesuit>\<close> 8\<open>\<spadesuit>\<close> 7\<open>\<spadesuit>\<close> 6\<open>\<spadesuit>\<close> 5\<open>\<spadesuit>\<close>
  the score 8,000,009 and the seven-high hand 7\<open>\<spadesuit>\<close> 5\<open>\<heartsuit>\<close> 4\<open>\<diamondsuit>\<close> 3\<open>\<clubsuit>\<close> 2\<open>\<spadesuit>\<close>
  the score 705,040,302: the positional term of the High Card and Flush branches
  (\<open>value * 100^4 + ...\<close>) is larger than the spacing of the category offsets.
\<close>

theorem high_card_outscores_straight_flush:
  "rankName (evaluateFiveCards straightFlushNine) = ''Straight Flush''
   \<and> score (evaluateFiveCards straightFlushNine) = Some 8000009
   \<and> rankName (evaluateFiveCards sevenHigh) = ''High Card''
   \<and> score (evaluateFiveCards sevenHigh) = Some 705040302"
  unfolding straightFlushNine_def sevenHigh_def by code_simp

theorem high_card_outscores_straight_flush_witness:
  "the (score (evaluateFiveCards straightFlushNine)) < the (score (evaluateFiveCards sevenHigh))"
  using high_card_outscores_straight_flush by simp

text \<open>
  C5. The claim is that seven cards holding A\<open>\<spadesuit>\<close> K\<open>\<spadesuit>\<close> Q\<open>\<spadesuit>\<close> J\<open>\<spadesuit>\<close> 10\<open>\<spadesuit>\<close>
  always evaluate to the royal flush, score 9,000,014. With 2\<open>\<heartsuit>\<close> and 3\<open>\<diamondsuit>\<close> as
  the other two cards \<^verbatim>\<open>evaluateHand\<close> returns the High Card hand A K Q J 3 with
  score 1,413,121,103, which the comparison of scores prefers to the royal flush.
\<close>

theorem royal_flush_loses_to_high_card:
  "evaluateHand royalSeven =
     Inr (Some \<lparr>rankName = ''High Card'', score = Some 1413121103,
                cards = [\<lparr>suit = Spades, rank = Ace\<rparr>, \<lparr>suit = Spades, rank = King\<rparr>,
                         \<lparr>suit = Spades, rank = Queen\<rparr>, \<lparr>suit = Spades, rank = Jack\<rparr>,
                         \<lparr>suit = Diamonds, rank = R3\<rparr>]\<rparr>)"
  unfolding royalSeven_def by code_simp

theorem royal_flush_loses_to_high_card_witness:
  "map_option score (projr (evaluateHand royalSeven)) = Some (Some (1413121103 :: int))
   \<and> (9000014 :: int) < 1413121103"
  using royal_flush_loses_to_high_card by simp

section \<open>The postcondition of collectBets\<close>

lemma collectFrom_players: "fst (collectFrom m ps q) = map (taken m) ps"
  by (induction ps arbitrary: q) (simp_all add: Let_def taken_def)

lemma collectFrom_amount:
  "amount (snd (collectFrom m ps q)) =
     amount q + sum_list (map (\<lambda>p. if 0 < currentBet p then min (currentBet p) m else 0) ps)"
  by (induction ps arbitrary: q) (simp_all add: Let_def)

lemma collectFrom_contributors:
  "contributors (snd (collectFrom m ps q)) =
     contributors q \<union> pid ` {p \<in> set ps. 0 < currentBet p}"
  by (induction ps arbitrary: q) (auto simp: Let_def)

lemma collectRound_fst: "fst (collectRound ps pts) = map (taken (minBetOf ps)) ps"
  by (simp add: collectRound_def Let_def collectFrom_players)

lemma sum_butlast_last:
  "xs \<noteq> [] \<Longrightarrow> sum_list (map f (butlast xs)) + f (last xs) = sum_list (map f xs)"
  by (induction xs) (simp_all add: add.assoc)

lemma collectRound_amount:
  "sum_list (map amount (snd (collectRound ps pts))) =
     sum_list (map amount pts)
       + sum_list (map (\<lambda>p. if 0 < currentBet p then min (currentBet p) (minBetOf ps) else 0) ps)"
proof -
  define pots1 where "pots1 = (if pts = [] then [emptyPot] else pts)"
  have ne: "pots1 \<noteq> []" by (simp add: pots1_def)
  have s1: "sum_list (map amount pots1) = sum_list (map amount pts)"
    by (simp add: pots1_def emptyPot_def)
  have "sum_list (map amount (snd (collectRound ps pts))) =
          sum_list (map amount (butlast pots1))
            + amount (snd (collectFrom (minBetOf ps) ps (last pots1)))"
    by (simp add: collectRound_def Let_def pots1_def emptyPot_def)
  also have "\<dots> = sum_list (map amount (butlast pots1)) + amount (last pots1)
      + sum_list (map (\<lambda>p. if 0 < currentBet p then min (currentBet p) (minBetOf ps) else 0) ps)"
    by (simp add: collectFrom_amount)
  also have "\<dots> = sum_list (map amount pts)
      + sum_list (map (\<lambda>p. if 0 < currentBet p then min (currentBet p) (minBetOf ps) else 0) ps)"
    using sum_butlast_last[OF ne, of amount] s1 by simp
  finally show ?thesis .
qed

lemma posBets_taken:
  "sum_list (map (\<lambda>p. if 0 < currentBet p then min (currentBet p) m else 0) ps)
     + posBets (map (taken m) ps) = posBets ps"
  by (induction ps) (auto simp: posBets_def taken_def min_def)

lemma drained_taken: "drained (taken m p) = drained p"
  by (auto simp: drained_def taken_def min_def)

lemma collectLoop_players: "fst (collectLoop ps pts) = map drained ps"
proof (induction ps pts rule: collectLoop.induct)
  case (1 ps pts)
  show ?case
  proof (cases "\<exists>p \<in> set ps. 0 < currentBet p")
    case True
    have "fst (collectLoop ps pts) = map drained (fst (collectRound ps pts))"
      using 1[OF True refl] True by (subst collectLoop.simps) (simp add: Let_def)
    then show ?thesis
      by (simp add: collectRound_fst drained_taken)
  next
    case False
    then have "map drained ps = ps"
      by (simp add: map_idI drained_def)
    then show ?thesis using False by (subst collectLoop.simps) simp
  qed
qed

lemma collectLoop_amount:
  "sum_list (map amount (snd (collectLoop ps pts))) = sum_list (map amount pts) + posBets ps"
proof (induction ps pts rule: collectLoop.induct)
  case (1 ps pts)
  show ?case
  proof (cases "\<exists>p \<in> set ps. 0 < currentBet p")
    case True
    have "sum_list (map amount (snd (collectLoop ps pts))) =
            sum_list (map amount (snd (collectRound ps pts))) + posBets (fst (collectRound ps pts))"
      using 1[OF True refl] True by (subst collectLoop.simps) (simp add: Let_def)
    then show ?thesis
      using posBets_taken[of "minBetOf ps" ps]
      by (simp add: collectRound_fst collectRound_amount)
  next
    case False
    then have "posBets ps = 0"
      unfolding posBets_def by (induction ps) auto
    then show ?thesis using False by (subst collectLoop.simps) simp
  qed
qed


lemma collectRound_shape:
  "\<exists>q. (snd (collectRound ps pts) = butlast (if pts = [] then [emptyPot] else pts) @ [q]
         \<or> snd (collectRound ps pts) = butlast (if pts = [] then [emptyPot] else pts) @ [q, emptyPot])
      \<and> contributors q =
          contributors (last (if pts = [] then [emptyPot] else pts))
            \<union> pid ` {p \<in> set ps. 0 < currentBet p}"
  by (simp add: collectRound_def Let_def collectFrom_contributors)

lemma collectRound_grows:
  "length pts \<le> length (snd (collectRound ps pts))
   \<and> (\<forall>j < length pts. contributors (pts ! j) \<subseteq> contributors (snd (collectRound ps pts) ! j))"
proof -
  obtain q where q:
    "snd (collectRound ps pts) = butlast (if pts = [] then [emptyPot] else pts) @ [q]
       \<or> snd (collectRound ps pts) = butlast (if pts = [] then [emptyPot] else pts) @ [q, emptyPot]"
    "contributors q = contributors (last (if pts = [] then [emptyPot] else pts))
            \<union> pid ` {p \<in> set ps. 0 < currentBet p}"
    using collectRound_shape[of ps pts] by blast
  show ?thesis
  proof (cases "pts = []")
    case True
    then show ?thesis by simp
  next
    case False
    have len: "length pts \<le> length (snd (collectRound ps pts))"
      using q(1) False by auto
    have "contributors (pts ! j) \<subseteq> contributors (snd (collectRound ps pts) ! j)"
      if "j < length pts" for j
    proof (cases "j < length pts - 1")
      case True
      then have "snd (collectRound ps pts) ! j = pts ! j"
        using q(1) False by (auto simp: nth_append nth_butlast)
      then show ?thesis by simp
    next
      case False
      then have j: "j = length pts - 1" using that by simp
      have "snd (collectRound ps pts) ! j = q"
        using q(1) \<open>pts \<noteq> []\<close> j by (auto simp: nth_append)
      moreover have "pts ! j = last pts"
        using j \<open>pts \<noteq> []\<close> by (simp add: last_conv_nth)
      ultimately show ?thesis using q(2) \<open>pts \<noteq> []\<close> by auto
    qed
    then show ?thesis using len by blast
  qed
qed

lemma collectRound_current:
  assumes "p \<in> set ps" "0 < currentBet p"
  shows "length pts - 1 < length (snd (collectRound ps pts))
       \<and> pid p \<in> contributors (snd (collectRound ps pts) ! (length pts - 1))"
proof -
  obtain q where q:
    "snd (collectRound ps pts) = butlast (if pts = [] then [emptyPot] else pts) @ [q]
       \<or> snd (collectRound ps pts) = butlast (if pts = [] then [emptyPot] else pts) @ [q, emptyPot]"
    "contributors q = contributors (last (if pts = [] then [emptyPot] else pts))
            \<union> pid ` {p \<in> set ps. 0 < currentBet p}"
    using collectRound_shape[of ps pts] by blast
  have "snd (collectRound ps pts) ! (length pts - 1) = q"
    using q(1) by (cases "pts = []") (auto simp: nth_append)
  moreover have "pid p \<in> contributors q"
    using q(2) assms by auto
  moreover have "length pts - 1 < length (snd (collectRound ps pts))"
    using q(1) by (cases "pts = []") auto
  ultimately show ?thesis by simp
qed

lemma collectLoop_grows:
  "length pts \<le> length (snd (collectLoop ps pts))
   \<and> (\<forall>j < length pts. contributors (pts ! j) \<subseteq> contributors (snd (collectLoop ps pts) ! j))"
proof (induction ps pts rule: collectLoop.induct)
  case (1 ps pts)
  show ?case
  proof (cases "\<exists>p \<in> set ps. 0 < currentBet p")
    case True
    have eq: "collectLoop ps pts = collectLoop (fst (collectRound ps pts)) (snd (collectRound ps pts))"
      using True by (rule collectLoop_step)
    have ih: "length (snd (collectRound ps pts)) \<le> length (snd (collectLoop ps pts))
       \<and> (\<forall>j < length (snd (collectRound ps pts)).
            contributors (snd (collectRound ps pts) ! j) \<subseteq> contributors (snd (collectLoop ps pts) ! j))"
      using 1[OF True refl] eq by simp
    show ?thesis
      using ih collectRound_grows[of pts ps] by (meson le_trans less_le_trans subset_trans)
  next
    case False
    then show ?thesis by (simp add: collectLoop_done)
  qed
qed

lemma collectBets_eq_loop: "collectBets ps pts = collectLoop ps pts"
  by (auto simp: collectBets_def Let_def filter_empty_conv collectLoop_done)

lemma collectBets_contributor:
  assumes "p \<in> set ps" "0 < currentBet p"
  shows "length pts - 1 < length (snd (collectBets ps pts))
       \<and> pid p \<in> contributors (snd (collectBets ps pts) ! (length pts - 1))"
proof -
  have ex: "\<exists>p \<in> set ps. 0 < currentBet p" using assms by blast
  have eq: "collectBets ps pts = collectLoop (fst (collectRound ps pts)) (snd (collectRound ps pts))"
    using collectLoop_step[OF ex] by (simp add: collectBets_eq_loop)
  have cur: "length pts - 1 < length (snd (collectRound ps pts))
       \<and> pid p \<in> contributors (snd (collectRound ps pts) ! (length pts - 1))"
    using collectRound_current[OF assms] .
  have gr: "length (snd (collectRound ps pts)) \<le> length (snd (collectBets ps pts))
       \<and> (\<forall>j < length (snd (collectRound ps pts)).
            contributors (snd (collectRound ps pts) ! j) \<subseteq> contributors (snd (collectBets ps pts) ! j))"
    using collectLoop_grows[of "snd (collectRound ps pts)" "fst (collectRound ps pts)"] eq by simp
  show ?thesis using cur gr by (meson less_le_trans subsetD)
qed

lemma afterRounds_loop:
  "collectLoop (fst (afterRounds n (ps, pts))) (snd (afterRounds n (ps, pts))) = collectLoop ps pts"
proof (induction n arbitrary: ps pts)
  case 0
  then show ?case by simp
next
  case (Suc n)
  show ?case
  proof (cases "\<exists>p \<in> set ps. 0 < currentBet p")
    case True
    have "collectLoop (fst (afterRounds (Suc n) (ps, pts))) (snd (afterRounds (Suc n) (ps, pts)))
        = collectLoop (fst (collectRound ps pts)) (snd (collectRound ps pts))"
      using True Suc.IH[of "fst (collectRound ps pts)" "snd (collectRound ps pts)"] by simp
    then show ?thesis using collectLoop_step[OF True, of pts] by simp
  next
    case False
    then show ?thesis by simp
  qed
qed

lemma afterRounds_ends: "\<exists>n. afterRounds n (ps, pts) = collectLoop ps pts"
proof (induction ps pts rule: collectLoop.induct)
  case (1 ps pts)
  show ?case
  proof (cases "\<exists>p \<in> set ps. 0 < currentBet p")
    case True
    obtain n where n: "afterRounds n (fst (collectRound ps pts), snd (collectRound ps pts))
        = collectLoop (fst (collectRound ps pts)) (snd (collectRound ps pts))"
      using 1[OF True refl] by blast
    have "afterRounds (Suc n) (ps, pts) = collectLoop ps pts"
      using True n collectLoop_step[OF True, of pts] by simp
    then show ?thesis by blast
  next
    case False
    then have "afterRounds 0 (ps, pts) = collectLoop ps pts"
      by (simp add: collectLoop_done)
    then show ?thesis by blast
  qed
qed

lemma afterRounds_contributor:
  assumes "q \<in> set (fst (afterRounds n (ps, pts)))" "0 < currentBet q"
  shows "length (snd (afterRounds n (ps, pts))) - 1 < length (snd (collectBets ps pts))
       \<and> pid q \<in> contributors (snd (collectBets ps pts) ! (length (snd (afterRounds n (ps, pts))) - 1))"
proof -
  have "collectBets (fst (afterRounds n (ps, pts))) (snd (afterRounds n (ps, pts))) = collectBets ps pts"
    by (simp add: collectBets_eq_loop afterRounds_loop)
  then show ?thesis
    using collectBets_contributor[OF assms, of "snd (afterRounds n (ps, pts))"] by simp
qed

lemma collectRound_pot:
  "length qts - 1 < length (snd (collectRound qs qts))
   \<and> amount (snd (collectRound qs qts) ! (length qts - 1))
       = (if qts = [] then 0 else amount (last qts))
         + sum_list (map (\<lambda>q. if 0 < currentBet q then min (currentBet q) (minBetOf qs) else 0) qs)
   \<and> contributors (snd (collectRound qs qts) ! (length qts - 1))
       = (if qts = [] then {} else contributors (last qts)) \<union> pid ` {q \<in> set qs. 0 < currentBet q}"
proof -
  define pots1 where "pots1 = (if qts = [] then [emptyPot] else qts)"
  define q where "q = snd (collectFrom (minBetOf qs) qs (last pots1))"
  have ne: "pots1 \<noteq> []" and len: "length pots1 - 1 = length qts - 1"
    by (simp_all add: pots1_def)
  have sh: "snd (collectRound qs qts) = butlast pots1 @ [q]
          \<or> snd (collectRound qs qts) = butlast pots1 @ [q, emptyPot]"
    by (simp add: collectRound_def Let_def pots1_def q_def)
  have k: "snd (collectRound qs qts) ! (length qts - 1) = q"
    "length qts - 1 < length (snd (collectRound qs qts))"
    using sh ne len by (auto simp: nth_append)
  have l: "last pots1 = (if qts = [] then emptyPot else last qts)"
    by (simp add: pots1_def)
  show ?thesis
    unfolding k(1) using k(2)
    by (simp add: q_def collectFrom_amount collectFrom_contributors l emptyPot_def)
qed

text \<open>
  C6. \<^verbatim>\<open>collectBets\<close> returns for every list of players (the loop is a total function:
  each round empties the smallest positive bet). When no current bet is negative, every
  player comes out with current bet zero and otherwise unchanged, and the pots' amounts
  grow in total by the sum of the current bets. The result is the state of the loop after
  some number of rounds. A round takes \<open>min bet minBet\<close> from every player with a bet in
  front and adds these chips, and the ids of these players, to the last pot of the list as
  it stands at that round (the new main pot if the list is empty). In the pots that
  \<^verbatim>\<open>collectBets\<close> returns, every player from whom a round took chips is a contributor of
  the pot that round paid into: the pot of the first round (the last pot of the list on
  entry) and every side pot opened later.
\<close>

theorem collectBets_consumes_bets:
  assumes "\<forall>p \<in> set ps. 0 \<le> currentBet p"
  shows "fst (collectBets ps pts) = map (\<lambda>p. p\<lparr>currentBet := 0\<rparr>) ps
       \<and> (\<forall>p \<in> set (fst (collectBets ps pts)). currentBet p = 0)
       \<and> sum_list (map amount (snd (collectBets ps pts)))
           = sum_list (map amount pts) + sum_list (map currentBet ps)
       \<and> (\<forall>p \<in> set ps. 0 < currentBet p \<longrightarrow>
             length pts - 1 < length (snd (collectBets ps pts))
             \<and> pid p \<in> contributors (snd (collectBets ps pts) ! (length pts - 1)))
       \<and> (\<exists>n. afterRounds n (ps, pts) = collectBets ps pts)
       \<and> (\<forall>n. \<forall>q \<in> set (fst (afterRounds n (ps, pts))). 0 < currentBet q \<longrightarrow>
             length (snd (afterRounds n (ps, pts))) - 1 < length (snd (collectBets ps pts))
             \<and> pid q \<in> contributors
                  (snd (collectBets ps pts) ! (length (snd (afterRounds n (ps, pts))) - 1)))
       \<and> (\<forall>qs qts.
             fst (collectRound qs qts) = map (taken (minBetOf qs)) qs
             \<and> length qts - 1 < length (snd (collectRound qs qts))
             \<and> amount (snd (collectRound qs qts) ! (length qts - 1))
                 = (if qts = [] then 0 else amount (last qts))
                   + sum_list (map (\<lambda>q. if 0 < currentBet q
                                          then min (currentBet q) (minBetOf qs) else 0) qs)
             \<and> contributors (snd (collectRound qs qts) ! (length qts - 1))
                 = (if qts = [] then {} else contributors (last qts))
                   \<union> pid ` {q \<in> set qs. 0 < currentBet q})"
proof -
  have a: "map drained ps = map (\<lambda>p. p\<lparr>currentBet := 0\<rparr>) ps"
    using assms by (auto simp: drained_def order_less_le)
  have b: "posBets ps = sum_list (map currentBet ps)"
    unfolding posBets_def using assms by (induction ps) auto
  have 1: "fst (collectBets ps pts) = map (\<lambda>p. p\<lparr>currentBet := 0\<rparr>) ps"
    using a by (simp add: collectBets_eq_loop collectLoop_players)
  have 2: "\<forall>p \<in> set (fst (collectBets ps pts)). currentBet p = 0"
    unfolding 1 by simp
  have 3: "sum_list (map amount (snd (collectBets ps pts)))
           = sum_list (map amount pts) + sum_list (map currentBet ps)"
    using b by (simp add: collectBets_eq_loop collectLoop_amount)
  have 4: "\<forall>p \<in> set ps. 0 < currentBet p \<longrightarrow>
             length pts - 1 < length (snd (collectBets ps pts))
             \<and> pid p \<in> contributors (snd (collectBets ps pts) ! (length pts - 1))"
    using collectBets_contributor by blast
  have 5: "\<exists>n. afterRounds n (ps, pts) = collectBets ps pts"
    using afterRounds_ends[of ps pts] by (simp add: collectBets_eq_loop)
  have 6: "\<forall>n. \<forall>q \<in> set (fst (afterRounds n (ps, pts))). 0 < currentBet q \<longrightarrow>
             length (snd (afterRounds n (ps, pts))) - 1 < length (snd (collectBets ps pts))
             \<and> pid q \<in> contributors
                  (snd (collectBets ps pts) ! (length (snd (afterRounds n (ps, pts))) - 1))"
    using afterRounds_contributor by blast
  have 7: "fst (collectRound qs qts) = map (taken (minBetOf qs)) qs
             \<and> length qts - 1 < length (snd (collectRound qs qts))
             \<and> amount (snd (collectRound qs qts) ! (length qts - 1))
                 = (if qts = [] then 0 else amount (last qts))
                   + sum_list (map (\<lambda>q. if 0 < currentBet q
                                          then min (currentBet q) (minBetOf qs) else 0) qs)
             \<and> contributors (snd (collectRound qs qts) ! (length qts - 1))
                 = (if qts = [] then {} else contributors (last qts))
                   \<union> pid ` {q \<in> set qs. 0 < currentBet q}" for qs qts
    using collectRound_pot[of qts qs] by (simp add: collectRound_fst)
  show ?thesis
    apply (intro conjI)
    apply (rule 1)
    apply (rule 2)
    apply (rule 3)
    apply (rule 4)
    apply (rule 5)
    apply (rule 6)
    using 7 apply blast
    done
qed

theorem collectBets_consumes_bets_witness:
  "map currentBet (fst (collectBets trio newPots)) = [0, 0, 0]
   \<and> sum_list (map amount (snd (collectBets trio newPots))) = 2100
   \<and> ''B'' \<in> contributors (snd (collectBets trio newPots) ! 0)
   \<and> map currentBet (fst (afterRounds (Suc 0) (trio, newPots))) = [900, 0, 900]
   \<and> length (snd (afterRounds (Suc 0) (trio, newPots))) - 1 = 1
   \<and> ''A'' \<in> contributors (snd (collectBets trio newPots) ! 1)
   \<and> ''C'' \<in> contributors (snd (collectBets trio newPots) ! 1)"
proof -
  have h: "\<forall>p \<in> set trio. 0 \<le> currentBet p"
    by (simp add: trio_def allInPlayer_def bet_def newPlayer_def)
  note t = collectBets_consumes_bets [OF h, of newPots]
  have b: "allInPlayer ''B'' ''Bob'' 100 \<in> set trio \<and> 0 < currentBet (allInPlayer ''B'' ''Bob'' 100)"
    by (simp add: trio_def allInPlayer_def bet_def newPlayer_def)
  have r1: "afterRounds (Suc 0) (trio, newPots)
      = ([(allInPlayer ''A'' ''Alice'' 1000)\<lparr>currentBet := 900\<rparr>,
          (allInPlayer ''B'' ''Bob'' 100)\<lparr>currentBet := 0\<rparr>,
          (allInPlayer ''C'' ''Charlie'' 1000)\<lparr>currentBet := 900\<rparr>],
         [\<lparr>amount = 300, contributors = {''A'', ''B'', ''C''}\<rparr>, emptyPot])"
    unfolding trio_def newPots_def emptyPot_def allInPlayer_def bet_def newPlayer_def
    by code_simp
  have "pid (allInPlayer ''B'' ''Bob'' 100) \<in> contributors (snd (collectBets trio newPots) ! (length newPots - 1))"
    using t b by blast
  then have 1: "''B'' \<in> contributors (snd (collectBets trio newPots) ! 0)"
    by (simp add: newPots_def allInPlayer_def bet_def newPlayer_def)
  have 2: "map currentBet (fst (collectBets trio newPots)) = [0, 0, 0]"
    using t by (simp add: trio_def)
  have 3: "sum_list (map amount (snd (collectBets trio newPots))) = 2100"
    using t by (simp add: trio_def newPots_def emptyPot_def allInPlayer_def bet_def newPlayer_def)
  have side: "pid q \<in> contributors (snd (collectBets trio newPots) ! 1)"
    if "q \<in> set (fst (afterRounds (Suc 0) (trio, newPots)))" "0 < currentBet q" for q
  proof -
    have "pid q \<in> contributors
            (snd (collectBets trio newPots) ! (length (snd (afterRounds (Suc 0) (trio, newPots))) - 1))"
      using t that by blast
    then show ?thesis by (simp add: r1 del: afterRounds.simps)
  qed
  have 4: "''A'' \<in> contributors (snd (collectBets trio newPots) ! 1)"
    using side[of "(allInPlayer ''A'' ''Alice'' 1000)\<lparr>currentBet := 900\<rparr>"]
    by (simp add: r1 allInPlayer_def bet_def newPlayer_def del: afterRounds.simps)
  have 5: "''C'' \<in> contributors (snd (collectBets trio newPots) ! 1)"
    using side[of "(allInPlayer ''C'' ''Charlie'' 1000)\<lparr>currentBet := 900\<rparr>"]
    by (simp add: r1 allInPlayer_def bet_def newPlayer_def del: afterRounds.simps)
  show ?thesis using 1 2 3 4 5 by (simp add: r1 del: afterRounds.simps)
qed

section \<open>Chips across actions and street transitions\<close>

lemma funds_split: "funds ps = sum_list (map chips ps) + sum_list (map currentBet ps)"
  by (induction ps) (simp_all add: funds_def)

lemma totalChips_funds:
  "totalChips r = funds (players r)
      + (case handState r of None \<Rightarrow> 0 | Some hs \<Rightarrow> sum_list (map amount (pots hs)))"
  by (simp add: totalChips_def funds_split)

lemma map_update_same:
  assumes "g q = g (ps ! i)"
  shows "map g (ps[i := q]) = map g ps"
proof (cases "i < length ps")
  case True
  have "map g (ps[i := q]) = (map g ps)[i := g (ps ! i)]"
    using assms by (simp add: map_update)
  also have "\<dots> = map g ps"
    using True by (simp add: list_update_same_conv)
  finally show ?thesis .
next
  case False
  then show ?thesis by (simp add: list_update_beyond)
qed

lemma map_modify:
  assumes "\<And>q. g (f q) = g q"
  shows "map g (modify j f ps) = map g ps"
  unfolding modify_def by (rule map_update_same) (simp add: assms)

lemma map_fold_modify:
  assumes "\<And>q. g (f q) = g q"
  shows "map g (fold (\<lambda>j qs. if C j qs then modify j f qs else qs) js ps) = map g ps"
  by (induction js arbitrary: ps) (simp_all add: map_modify assms)

lemma funds_update:
  assumes "chips q + currentBet q = chips (ps ! i) + currentBet (ps ! i)"
  shows "funds (ps[i := q]) = funds ps"
  unfolding funds_def
  using map_update_same[of "\<lambda>p. chips p + currentBet p" q ps i] assms by simp

lemma funds_cong: "map (\<lambda>p. chips p + currentBet p) ps = map (\<lambda>p. chips p + currentBet p) qs \<Longrightarrow> funds ps = funds qs"
  by (simp add: funds_def)

lemma bet_funds: "chips (snd (bet a p)) + currentBet (snd (bet a p)) = chips p + currentBet p"
  by (simp add: bet_def Let_def)

lemma bet_chips_nonneg: "0 \<le> chips p \<Longrightarrow> 0 \<le> chips (snd (bet a p))"
  by (simp add: bet_def Let_def min_def)

lemma bet_currentBet: "currentBet (snd (bet a p)) = currentBet p + min a (chips p)"
  by (simp add: bet_def Let_def)

lemma findIndex_Some: "findIndex P xs = Some i \<Longrightarrow> i < length xs \<and> P (xs ! i)"
proof (induction xs arbitrary: i)
  case Nil
  then show ?case by simp
next
  case (Cons x xs)
  then show ?case by (cases "P x") (auto simp: nth_Cons')
qed

lemma callFor_funds: "funds (fst (callFor i (ps, hs))) = funds ps"
  by (simp add: callFor_def Let_def funds_update bet_funds)

lemma callFor_pots: "pots (snd (callFor i (ps, hs))) = pots hs"
  by (simp add: callFor_def Let_def)

lemma callFor_hsCurrentBet: "hsCurrentBet (snd (callFor i (ps, hs))) = hsCurrentBet hs"
  by (simp add: callFor_def Let_def)

lemma set_update_fair:
  assumes "\<forall>p \<in> set ps. fair p" "fair q"
  shows "\<forall>p \<in> set (ps[i := q]). fair p"
  using assms set_update_subset_insert[of ps i q] by auto

lemma bet_fair:
  assumes "fair p" "0 \<le> currentBet p + min a (chips p)"
  shows "fair (snd (bet a p))"
proof -
  have "0 \<le> chips (snd (bet a p))"
    using assms(1) by (simp add: fair_def bet_chips_nonneg)
  moreover have "0 \<le> currentBet (snd (bet a p))"
    using assms(2) by (simp add: bet_currentBet)
  ultimately show ?thesis by (simp add: fair_def)
qed

lemma fair_hasActed: "fair (p\<lparr>hasActed := b\<rparr>) = fair p"
  by (simp add: fair_def)

lemma callFor_fair:
  assumes "\<forall>p \<in> set ps. fair p" "i < length ps" "0 \<le> hsCurrentBet hs"
  shows "\<forall>p \<in> set (fst (callFor i (ps, hs))). fair p"
proof -
  have p: "fair (ps ! i)" using assms(1,2) by simp
  have 1: "fair (snd (bet (chips (ps ! i)) (ps ! i)))"
    using p by (intro bet_fair) (simp_all add: fair_def)
  have 2: "fair (snd (bet (hsCurrentBet hs - currentBet (ps ! i)) (ps ! i)))"
    if "\<not> chips (ps ! i) < hsCurrentBet hs - currentBet (ps ! i)"
    using p that assms(3) by (intro bet_fair) (simp_all add: fair_def min_def)
  show ?thesis
  proof (cases "chips (ps ! i) < hsCurrentBet hs - currentBet (ps ! i)")
    case True
    then have "fst (callFor i (ps, hs)) = ps[i := (snd (bet (chips (ps ! i)) (ps ! i)))\<lparr>hasActed := True\<rparr>]"
      by (simp add: callFor_def Let_def)
    moreover have "fair ((snd (bet (chips (ps ! i)) (ps ! i)))\<lparr>hasActed := True\<rparr>)"
      using 1 by (simp only: fair_hasActed)
    ultimately show ?thesis using set_update_fair[OF assms(1)] by metis
  next
    case False
    then have "fst (callFor i (ps, hs)) =
        ps[i := (snd (bet (hsCurrentBet hs - currentBet (ps ! i)) (ps ! i)))\<lparr>hasActed := True\<rparr>]"
      by (simp add: callFor_def Let_def)
    moreover have "fair ((snd (bet (hsCurrentBet hs - currentBet (ps ! i)) (ps ! i)))\<lparr>hasActed := True\<rparr>)"
      using 2[OF False] by (simp only: fair_hasActed)
    ultimately show ?thesis using set_update_fair[OF assms(1)] by metis
  qed
qed


lemma applyAction_Raise:
  assumes "applyAction i active (Raise a) (ps, hs) = Some (ps', hs')"
  shows "callFor i (ps, hs) = (ps', hs')
       \<or> (0 < a \<and> a \<le> chips (ps ! i)
          \<and> ps' = modify i (\<lambda>q. q\<lparr>hasActed := True\<rparr>)
                 (fold (\<lambda>j qs. if pid (qs ! j) \<noteq> pid (ps ! i)
                                 then modify j (\<lambda>q. q\<lparr>hasActed := False\<rparr>) qs else qs)
                       active (ps[i := snd (bet a (ps ! i))]))
          \<and> hs' = hs\<lparr>hsCurrentBet := currentBet (snd (bet a (ps ! i))),
                      hsPot := hsPot hs + fst (bet a (ps ! i))\<rparr>)"
  using assms unfolding applyAction_def Let_def
  by (simp split: if_splits)

lemma applyAction_funds:
  assumes "applyAction i active act (ps, hs) = Some (ps', hs')"
  shows "funds ps' = funds ps \<and> pots hs' = pots hs"
proof (cases act)
  case Fold
  then have "ps' = ps[i := (fold_hand (ps ! i))\<lparr>hasActed := True\<rparr>] \<and> hs' = hs"
    using assms by (simp add: applyAction_def Let_def)
  then show ?thesis
    by (simp add: fold_hand_def funds_update)
next
  case Check
  then have "ps' = ps[i := (ps ! i)\<lparr>hasActed := True\<rparr>] \<and> hs' = hs"
    using assms by (simp add: applyAction_def Let_def split: if_splits)
  then show ?thesis
    by (simp add: funds_update)
next
  case Call
  then have "callFor i (ps, hs) = (ps', hs')"
    using assms by (simp add: applyAction_def Let_def)
  then show ?thesis
    using callFor_funds[of i ps hs] callFor_pots[of i ps hs] by simp
next
  case (Raise a)
  from applyAction_Raise[OF assms[unfolded Raise]]
  show ?thesis
  proof (elim disjE conjE)
    assume "callFor i (ps, hs) = (ps', hs')"
    then show ?thesis
      using callFor_funds[of i ps hs] callFor_pots[of i ps hs] by simp
  next
    assume ps': "ps' = modify i (\<lambda>q. q\<lparr>hasActed := True\<rparr>)
                 (fold (\<lambda>j qs. if pid (qs ! j) \<noteq> pid (ps ! i)
                                 then modify j (\<lambda>q. q\<lparr>hasActed := False\<rparr>) qs else qs)
                       active (ps[i := snd (bet a (ps ! i))]))"
      and hs': "hs' = hs\<lparr>hsCurrentBet := currentBet (snd (bet a (ps ! i))),
                      hsPot := hsPot hs + fst (bet a (ps ! i))\<rparr>"
    have "map (\<lambda>p. chips p + currentBet p) ps' =
            map (\<lambda>p. chips p + currentBet p) (ps[i := snd (bet a (ps ! i))])"
      unfolding ps' by (simp add: map_modify map_fold_modify)
    then have "funds ps' = funds (ps[i := snd (bet a (ps ! i))])"
      by (rule funds_cong)
    then show ?thesis using hs' by (simp add: funds_update bet_funds)
  qed
qed


lemma all_fair_cong:
  assumes "map (\<lambda>p. (chips p, currentBet p)) ps = map (\<lambda>p. (chips p, currentBet p)) qs"
  shows "(\<forall>p \<in> set ps. fair p) = (\<forall>p \<in> set qs. fair p)"
proof -
  have im: "(\<lambda>p. (chips p, currentBet p)) ` set ps = (\<lambda>p. (chips p, currentBet p)) ` set qs"
    using assms by (metis image_set)
  have "(\<forall>p \<in> set xs. fair p)
          = (\<forall>x \<in> (\<lambda>p. (chips p, currentBet p)) ` set xs. 0 \<le> fst x \<and> 0 \<le> snd x)" for xs
    by (simp add: fair_def)
  then show ?thesis by (simp only: im)
qed

lemma applyAction_fair:
  assumes "applyAction i active act (ps, hs) = Some (ps', hs')"
    and "\<forall>p \<in> set ps. fair p" "i < length ps" "0 \<le> hsCurrentBet hs"
  shows "(\<forall>p \<in> set ps'. fair p) \<and> 0 \<le> hsCurrentBet hs'"
proof -
  have p: "fair (ps ! i)" using assms(2,3) by simp
  have viaCall: ?thesis if "callFor i (ps, hs) = (ps', hs')"
    using that callFor_fair[OF assms(2,3,4)] callFor_hsCurrentBet[of i ps hs] assms(4) by simp
  show ?thesis
  proof (cases act)
    case Fold
    then have "ps' = ps[i := (fold_hand (ps ! i))\<lparr>hasActed := True\<rparr>] \<and> hs' = hs"
      using assms(1) by (simp add: applyAction_def Let_def)
    moreover have "fair ((fold_hand (ps ! i))\<lparr>hasActed := True\<rparr>)"
      using p by (simp add: fair_def fold_hand_def)
    ultimately show ?thesis
      using set_update_fair[OF assms(2)] assms(4) by metis
  next
    case Check
    then have "ps' = ps[i := (ps ! i)\<lparr>hasActed := True\<rparr>] \<and> hs' = hs"
      using assms(1) by (simp add: applyAction_def Let_def split: if_splits)
    moreover have "fair ((ps ! i)\<lparr>hasActed := True\<rparr>)"
      using p by (simp add: fair_def)
    ultimately show ?thesis
      using set_update_fair[OF assms(2)] assms(4) by metis
  next
    case Call
    then have "callFor i (ps, hs) = (ps', hs')"
      using assms(1) by (simp add: applyAction_def Let_def)
    then show ?thesis by (rule viaCall)
  next
    case (Raise a)
    from applyAction_Raise[OF assms(1)[unfolded Raise]]
    show ?thesis
    proof (elim disjE conjE)
      assume "callFor i (ps, hs) = (ps', hs')"
      then show ?thesis by (rule viaCall)
    next
      assume a: "0 < a" "a \<le> chips (ps ! i)"
        and ps': "ps' = modify i (\<lambda>q. q\<lparr>hasActed := True\<rparr>)
                 (fold (\<lambda>j qs. if pid (qs ! j) \<noteq> pid (ps ! i)
                                 then modify j (\<lambda>q. q\<lparr>hasActed := False\<rparr>) qs else qs)
                       active (ps[i := snd (bet a (ps ! i))]))"
        and hs': "hs' = hs\<lparr>hsCurrentBet := currentBet (snd (bet a (ps ! i))),
                      hsPot := hsPot hs + fst (bet a (ps ! i))\<rparr>"
      have fb: "fair (snd (bet a (ps ! i)))"
        using p a by (intro bet_fair) (simp_all add: fair_def min_def)
      have "map (\<lambda>p. (chips p, currentBet p)) ps' =
              map (\<lambda>p. (chips p, currentBet p)) (ps[i := snd (bet a (ps ! i))])"
        unfolding ps' by (simp add: map_modify map_fold_modify)
      then have "(\<forall>p \<in> set ps'. fair p) = (\<forall>p \<in> set (ps[i := snd (bet a (ps ! i))]). fair p)"
        by (rule all_fair_cong)
      moreover have "\<forall>p \<in> set (ps[i := snd (bet a (ps ! i))]). fair p"
        using set_update_fair[OF assms(2) fb] .
      moreover have "0 \<le> hsCurrentBet hs'"
        using fb hs' by (simp add: fair_def)
      ultimately show ?thesis by simp
    qed
  qed
qed

lemma nonNegative_fair:
  "nonNegative r = ((\<forall>p \<in> set (players r). fair p)
      \<and> (case handState r of None \<Rightarrow> True | Some hs \<Rightarrow> 0 \<le> hsCurrentBet hs))"
  by (simp add: nonNegative_def fair_def)

lemma handlePlayerAction_result:
  assumes "handlePlayerAction r playerId act = Inr r'"
  shows "r' = r
       \<or> (\<exists>hs i ps hs1 k. handState r = Some hs \<and> i < length (players r)
             \<and> applyAction i (activePositions (players r)) act (players r, hs) = Some (ps, hs1)
             \<and> r' = r\<lparr>players := ps, handState := Some (hs1\<lparr>currentPlayerIndex := k\<rparr>)\<rparr>)"
proof (cases "handState r")
  case None
  then show ?thesis using assms by (simp add: handlePlayerAction_def)
next
  case (Some hs)
  show ?thesis
  proof (cases "findIndex (\<lambda>p. pid p = playerId) (players r)")
    case None
    then show ?thesis using assms Some by (simp add: handlePlayerAction_def)
  next
    case i: (Some i)
    then have il: "i < length (players r)" by (simp add: findIndex_Some)
    show ?thesis
    proof (cases "applyAction i (activePositions (players r)) act (players r, hs)")
      case None
      then show ?thesis using assms Some i
        by (simp add: handlePlayerAction_def Let_def split: option.splits if_splits)
    next
      case ap: (Some st)
      obtain ps hs1 where st: "st = (ps, hs1)" by (cases st)
      have "r' = r \<or> (\<exists>k. r' = r\<lparr>players := ps, handState := Some (hs1\<lparr>currentPlayerIndex := k\<rparr>)\<rparr>)"
        using assms Some i ap st
        by (simp add: handlePlayerAction_def Let_def split: option.splits if_splits) blast+
      then show ?thesis using Some il ap st by blast
    qed
  qed
qed

lemma handlePlayerAction_keeps:
  assumes "handlePlayerAction r playerId act = Inr r'" "nonNegative r"
  shows "nonNegative r' \<and> totalChips r' = totalChips r
       \<and> (handState r \<noteq> None \<longrightarrow> handState r' \<noteq> None)"
  using handlePlayerAction_result[OF assms(1)]
proof (elim disjE exE conjE)
  assume "r' = r"
  then show ?thesis using assms(2) by simp
next
  fix hs i ps hs1 k
  assume hs: "handState r = Some hs" and i: "i < length (players r)"
    and ap: "applyAction i (activePositions (players r)) act (players r, hs) = Some (ps, hs1)"
    and r': "r' = r\<lparr>players := ps, handState := Some (hs1\<lparr>currentPlayerIndex := k\<rparr>)\<rparr>"
  have f: "\<forall>p \<in> set (players r). fair p" and c: "0 \<le> hsCurrentBet hs"
    using assms(2) hs by (simp_all add: nonNegative_fair)
  have 1: "(\<forall>p \<in> set ps. fair p) \<and> 0 \<le> hsCurrentBet hs1"
    using applyAction_fair[OF ap f i c] .
  have 2: "funds ps = funds (players r) \<and> pots hs1 = pots hs"
    using applyAction_funds[OF ap] .
  show ?thesis
    using 1 2 hs by (simp add: r' nonNegative_fair totalChips_funds)
qed


lemma positionsWhere_bound: "j \<in> set (positionsWhere P ps) \<Longrightarrow> j < length ps"
  by (simp add: positionsWhere_def)

lemma positionsWhere_length: "length (positionsWhere P ps) \<le> length ps"
  using length_filter_le[of "\<lambda>i. P (ps ! i)" "[0..<length ps]"] by (simp add: positionsWhere_def)

lemma positionsWhere_chips:
  assumes "map chips ps = map chips qs"
  shows "positionsWhere (\<lambda>p. 0 < chips p) ps = positionsWhere (\<lambda>p. 0 < chips p) qs"
proof -
  have len: "length ps = length qs"
    using assms by (metis length_map)
  have "chips (ps ! i) = chips (qs ! i)" if "i < length ps" for i
    using assms that len by (metis nth_map)
  then show ?thesis
    unfolding positionsWhere_def len[symmetric] by (intro filter_cong) simp_all
qed

lemma dealHands_map:
  assumes "\<And>p h. g (p\<lparr>hand := h\<rparr>) = g p"
  shows "map g (fst (dealHands ps dk)) = map g ps"
  by (induction ps arbitrary: dk) (simp_all add: Let_def assms)

lemma modify_fair:
  assumes "\<forall>p \<in> set ps. fair p" "\<And>q. q \<in> set ps \<Longrightarrow> fair (f q)"
  shows "\<forall>p \<in> set (modify j f ps). fair p"
proof (cases "j < length ps")
  case True
  then have "fair (f (ps ! j))" using assms(2) by simp
  then show ?thesis unfolding modify_def by (rule set_update_fair[OF assms(1)])
next
  case False
  then show ?thesis using assms(1) by (simp add: modify_def list_update_beyond)
qed

lemma funds_modify:
  assumes "\<And>q. chips (f q) + currentBet (f q) = chips q + currentBet q"
  shows "funds (modify j f ps) = funds ps"
  unfolding funds_def using map_modify[of "\<lambda>p. chips p + currentBet p" f j ps] assms by simp

lemma bet_fair_nonneg: "fair q \<Longrightarrow> 0 \<le> a \<Longrightarrow> fair (snd (bet a q))"
  by (intro bet_fair) (simp_all add: fair_def min_def)

lemma startHand_sound:
  assumes "2 \<le> length (positionsWhere (\<lambda>p. 0 < chips p) (players r0))"
    and "\<forall>p \<in> set (players r0). 0 \<le> chips p"
  shows "nonNegative (startHand r0 sh)
       \<and> totalChips (startHand r0 sh) = sum_list (map chips (players r0))
       \<and> handState (startHand r0 sh) \<noteq> None"
proof -
  define ps where "ps = fst (dealHands (map resetForNewHand (players r0)) sh)"
  define act where "act = positionsWhere (\<lambda>p. 0 < chips p) ps"
  define n where "n = length act"
  define d where "d = (roomDealerIndex r0 + 1) mod n"
  define sb where "sb = (d + 1) mod n"
  define bb where "bb = (sb + 1) mod n"
  define smallBlind where "smallBlind = min 10 (chips (ps ! (act ! sb)))"
  define bigBlind where "bigBlind = min 20 (chips (ps ! (act ! bb)))"
  define ps2 where "ps2 = modify (act ! bb) (\<lambda>p. snd (bet bigBlind p))
                            (modify (act ! sb) (\<lambda>p. snd (bet smallBlind p)) ps)"
  have chips_ps: "map chips ps = map chips (players r0)"
    unfolding ps_def by (simp add: dealHands_map resetForNewHand_def o_def)
  have bets_ps: "map currentBet ps = map (\<lambda>p. 0) (players r0)"
    unfolding ps_def by (simp add: dealHands_map resetForNewHand_def o_def)
  have act_eq: "act = positionsWhere (\<lambda>p. 0 < chips p) (players r0)"
    unfolding act_def by (rule positionsWhere_chips[OF chips_ps])
  have n2: "2 \<le> n" using assms(1) by (simp add: n_def act_eq)
  have len2: "\<not> length (players r0) < 2"
    using assms(1) positionsWhere_length[of "\<lambda>p. 0 < chips p" "players r0"] by simp
  have fair_ps: "\<forall>p \<in> set ps. fair p"
  proof
    fix p assume "p \<in> set ps"
    then have "chips p \<in> set (map chips ps)" and "currentBet p \<in> set (map currentBet ps)"
      by simp_all
    then show "fair p"
      using assms(2) by (auto simp: chips_ps bets_ps fair_def)
  qed
  have inr: "act ! k < length ps" if "k < n" for k
    using that positionsWhere_bound[of "act ! k" "\<lambda>p. 0 < chips p" ps]
    by (simp add: act_def n_def)
  have sbn: "sb < n" and bbn: "bb < n"
    using n2 by (simp_all add: sb_def bb_def)
  have sb0: "0 \<le> smallBlind"
    using fair_ps inr[OF sbn] by (simp add: smallBlind_def fair_def)
  have bb0: "0 \<le> bigBlind"
    using fair_ps inr[OF bbn] by (simp add: bigBlind_def fair_def)
  have eq: "startHand r0 sh =
      r0\<lparr>players := ps2, deck := snd (dealHands (map resetForNewHand (players r0)) sh),
         handState := Some (newHandState
                         \<lparr>dealerIndex := d, smallBlindIndex := sb, bigBlindIndex := bb,
                          hsCurrentBet := bigBlind, hsPot := smallBlind + bigBlind,
                          currentPlayerIndex := int ((bb + 1) mod n), blindsPosted := True\<rparr>),
         roomDealerIndex := d\<rparr>"
    using len2 n2
    unfolding ps2_def bigBlind_def smallBlind_def bb_def sb_def d_def n_def act_def ps_def
    by (simp add: startHand_def Let_def)
  have funds2: "funds ps2 = funds ps"
    unfolding ps2_def by (simp add: funds_modify bet_funds)
  have fair1: "\<forall>p \<in> set (modify (act ! sb) (\<lambda>p. snd (bet smallBlind p)) ps). fair p"
    using fair_ps sb0 by (intro modify_fair) (simp_all add: bet_fair_nonneg)
  have fair2: "\<forall>p \<in> set ps2. fair p"
    unfolding ps2_def
  proof (rule modify_fair)
    show "\<forall>p \<in> set (modify (act ! sb) (\<lambda>p. snd (bet smallBlind p)) ps). fair p"
      by (rule fair1)
  next
    fix q assume "q \<in> set (modify (act ! sb) (\<lambda>p. snd (bet smallBlind p)) ps)"
    then have "fair q" using fair1 by simp
    then show "fair (snd (bet bigBlind q))" using bb0 by (rule bet_fair_nonneg)
  qed
  have "funds ps = sum_list (map chips (players r0))"
    by (simp add: funds_split chips_ps bets_ps)
  then show ?thesis
    using funds2 fair2 bb0
    by (simp add: eq nonNegative_fair totalChips_funds newHandState_def newPots_def emptyPot_def)
qed


lemma endHand_showdown:
  assumes "endHand r = Inr r'" "handState r = Some hs"
  shows "\<exists>hs'. handState r' = Some hs' \<and> phase hs' = Showdown"
  using assms unfolding endHand_def settle_def Let_def
  by (auto split: if_splits sum.splits prod.splits)

lemma nextStreet_pots: "pots (fst (nextStreet hs dk)) = pots hs"
  by (simp add: nextStreet_def Let_def)

lemma processBettingRound_result:
  assumes "processBettingRound r = Some (Inr r')" "handState r = Some hs"
  shows "r' = r
       \<or> endHand r = Inr r'
       \<or> endHand (r\<lparr>players := fst (collectBets (players r) (pots hs)),
                     handState := Some (hs\<lparr>pots := snd (collectBets (players r) (pots hs))\<rparr>)\<rparr>) = Inr r'
       \<or> (players r' = fold (\<lambda>i. modify i resetForNewBettingRound)
                           (activePositions (players r))
                           (fst (collectBets (players r) (pots hs)))
          \<and> (\<exists>hs'. handState r' = Some hs' \<and> hsCurrentBet hs' = 0
                \<and> pots hs' = snd (collectBets (players r) (pots hs))))"
  using assms unfolding processBettingRound_def Let_def
  by (auto simp: nextStreet_pots split: if_splits option.splits)


lemma modify_all:
  assumes "\<forall>p \<in> set ps. P p" "\<And>q. P q \<Longrightarrow> P (f q)"
  shows "\<forall>p \<in> set (modify j f ps). P p"
proof (cases "j < length ps")
  case True
  then have "P (f (ps ! j))" using assms by simp
  then show ?thesis
    using assms(1) set_update_subset_insert[of ps j "f (ps ! j)"] by (auto simp: modify_def)
next
  case False
  then show ?thesis using assms(1) by (simp add: modify_def list_update_beyond)
qed

lemma fold_modify_all:
  assumes "\<forall>p \<in> set ps. P p" "\<And>q. P q \<Longrightarrow> P (f q)"
  shows "\<forall>p \<in> set (fold (\<lambda>i. modify i f) js ps). P p"
  using assms(1)
proof (induction js arbitrary: ps)
  case Nil
  then show ?case by simp
next
  case (Cons j js)
  have "\<forall>p \<in> set (modify j f ps). P p"
    using Cons.prems assms(2) by (rule modify_all)
  then show ?case using Cons.IH by simp
qed

lemma sum_list_all_zero: "\<forall>x \<in> set xs. f x = (0::int) \<Longrightarrow> sum_list (map f xs) = 0"
  by (induction xs) simp_all

lemma sum_list_chips_cong:
  "map chips ps = map chips qs \<Longrightarrow> sum_list (map chips ps) = sum_list (map chips qs)"
  by simp

lemma street_players:
  assumes "\<forall>p \<in> set ps. fair p"
  shows "(\<forall>p \<in> set (fold (\<lambda>i. modify i resetForNewBettingRound) js (fst (collectBets ps pts))).
            0 \<le> chips p \<and> currentBet p = 0)
       \<and> funds (fold (\<lambda>i. modify i resetForNewBettingRound) js (fst (collectBets ps pts)))
           + sum_list (map amount (snd (collectBets ps pts)))
         = funds ps + sum_list (map amount pts)"
proof -
  let ?c = "fst (collectBets ps pts)"
  let ?ps1 = "fold (\<lambda>i. modify i resetForNewBettingRound) js ?c"
  have dr: "map drained ps = map (\<lambda>p. p\<lparr>currentBet := 0\<rparr>) ps"
    using assms by (auto simp: drained_def fair_def order_less_le)
  have pb: "posBets ps = sum_list (map currentBet ps)"
    unfolding posBets_def using assms by (induction ps) (auto simp: fair_def)
  have c: "?c = map (\<lambda>p. p\<lparr>currentBet := 0\<rparr>) ps"
    using dr by (simp add: collectBets_eq_loop collectLoop_players)
  have am: "sum_list (map amount (snd (collectBets ps pts)))
           = sum_list (map amount pts) + sum_list (map currentBet ps)"
    using pb by (simp add: collectBets_eq_loop collectLoop_amount)
  have c0: "\<forall>p \<in> set ?c. 0 \<le> chips p \<and> currentBet p = 0"
    using assms by (auto simp: c fair_def)
  have all: "\<forall>p \<in> set ?ps1. 0 \<le> chips p \<and> currentBet p = 0"
    using c0 by (rule fold_modify_all) (simp add: resetForNewBettingRound_def)
  have "map chips ?ps1 = map chips ?c"
    using map_fold_modify[of chips resetForNewBettingRound "\<lambda>j qs. True" js ?c]
    by (simp add: resetForNewBettingRound_def)
  then have ch: "sum_list (map chips ?ps1) = sum_list (map chips ps)"
    by (simp add: c o_def)
  have "sum_list (map currentBet ?ps1) = 0"
    using all by (intro sum_list_all_zero) simp
  then have "funds ?ps1 = sum_list (map chips ps)"
    using ch by (simp add: funds_split)
  then show ?thesis using all am by (simp add: funds_split)
qed

lemma processBettingRound_keeps:
  assumes "processBettingRound r = Some (Inr r')" "nonNegative r"
    and "handState r' = Some hs'" "phase hs' \<noteq> Showdown"
  shows "nonNegative r' \<and> totalChips r' = totalChips r"
proof (cases "handState r")
  case None
  then have "r' = r" using assms(1) by (simp add: processBettingRound_def)
  then show ?thesis using assms(2) by simp
next
  case (Some hs)
  have noEnd: False if "endHand x = Inr r'" "handState x = Some y" for x y
    using endHand_showdown[OF that] assms(3,4) by auto
  have f: "\<forall>p \<in> set (players r). fair p"
    using assms(2) by (simp add: nonNegative_fair)
  from processBettingRound_result[OF assms(1) Some]
  show ?thesis
  proof (elim disjE conjE exE)
    assume "r' = r"
    then show ?thesis using assms(2) by simp
  next
    assume "endHand r = Inr r'"
    then show ?thesis using noEnd Some by blast
  next
    assume "endHand (r\<lparr>players := fst (collectBets (players r) (pots hs)),
                     handState := Some (hs\<lparr>pots := snd (collectBets (players r) (pots hs))\<rparr>)\<rparr>) = Inr r'"
    then have False
      by (rule noEnd) simp
    then show ?thesis ..
  next
    fix h
    assume ps: "players r' = fold (\<lambda>i. modify i resetForNewBettingRound)
                           (activePositions (players r))
                           (fst (collectBets (players r) (pots hs)))"
      and h: "handState r' = Some h" "hsCurrentBet h = 0"
             "pots h = snd (collectBets (players r) (pots hs))"
    from street_players[OF f, of "activePositions (players r)" "pots hs"]
    show ?thesis
      using Some by (simp add: ps h nonNegative_def totalChips_funds)
  qed
qed

section \<open>Settlement run twice\<close>

lemma seats_length: "seats ps = seats qs \<Longrightarrow> length ps = length qs"
  unfolding seats_def by (metis length_map)

lemma seats_nth:
  assumes "seats ps = seats qs" "i < length ps"
  shows "(ps ! i)\<lparr>chips := 0\<rparr> = (qs ! i)\<lparr>chips := 0\<rparr>"
proof -
  have "seats ps ! i = (ps ! i)\<lparr>chips := 0\<rparr>"
    using assms(2) by (simp add: seats_def)
  moreover have "seats qs ! i = (qs ! i)\<lparr>chips := 0\<rparr>"
    using assms seats_length[OF assms(1)] by (simp add: seats_def)
  ultimately show ?thesis using assms(1) by simp
qed

lemma seats_fields:
  assumes "seats ps = seats qs" "i < length ps"
  shows "pid (ps ! i) = pid (qs ! i)" "pname (ps ! i) = pname (qs ! i)"
    "hand (ps ! i) = hand (qs ! i)" "hasFolded (ps ! i) = hasFolded (qs ! i)"
    "currentBet (ps ! i) = currentBet (qs ! i)"
proof -
  have e: "(ps ! i)\<lparr>chips := 0\<rparr> = (qs ! i)\<lparr>chips := 0\<rparr>"
    using seats_nth[OF assms] .
  show "pid (ps ! i) = pid (qs ! i)"
    using arg_cong[OF e, of pid] by simp
  show "pname (ps ! i) = pname (qs ! i)"
    using arg_cong[OF e, of pname] by simp
  show "hand (ps ! i) = hand (qs ! i)"
    using arg_cong[OF e, of hand] by simp
  show "hasFolded (ps ! i) = hasFolded (qs ! i)"
    using arg_cong[OF e, of hasFolded] by simp
  show "currentBet (ps ! i) = currentBet (qs ! i)"
    using arg_cong[OF e, of currentBet] by simp
qed

lemma nth_modify:
  "i < length ps \<Longrightarrow> modify j f ps ! i = (if i = j then f (ps ! i) else ps ! i)"
  by (simp add: modify_def)

lemma length_modify: "length (modify j f ps) = length ps"
  by (simp add: modify_def)

lemma payFold:
  "length (fold (\<lambda>e. modify (fst e) (pay sh)) es ps) = length ps
   \<and> seats (fold (\<lambda>e. modify (fst e) (pay sh)) es ps) = seats ps
   \<and> (\<forall>i < length ps. chips (fold (\<lambda>e. modify (fst e) (pay sh)) es ps ! i)
         = chips (ps ! i) + sh * int (count_list (map fst es) i))"
proof (induction es arbitrary: ps)
  case Nil
  then show ?case by simp
next
  case (Cons e es)
  have s: "seats (modify (fst e) (pay sh) ps) = seats ps"
    unfolding seats_def by (rule map_modify) (simp add: pay_def)
  have c: "chips (modify (fst e) (pay sh) ps ! i)
        = chips (ps ! i) + (if i = fst e then sh else 0)" if "i < length ps" for i
    using that by (simp add: nth_modify pay_def)
  show ?case
    using Cons.IH[of "modify (fst e) (pay sh) ps"] s c
    by (simp add: length_modify algebra_simps)
qed


lemma payPot_unfold:
  "payPot evs k p (ps, ws) =
     (if amount p = 0 \<or> eligibleOf ps p evs = [] then Inr (ps, ws)
      else if \<exists>e \<in> set (eligibleOf ps p evs). snd e = None then Inl TypeError
      else Inr (fold (\<lambda>e. modify (fst e) (pay (amount p div int (length (winnersOf (eligibleOf ps p evs))))))
                     (winnersOf (eligibleOf ps p evs)) ps,
                ws @ entries ps (amount p div int (length (winnersOf (eligibleOf ps p evs)))) k
                       (winnersOf (eligibleOf ps p evs))))"
  unfolding payPot_def Let_def pay_def eligibleOf_def winnersOf_def entries_def by auto

lemma eligibleOf_seats:
  assumes "seats ps = seats qs" "\<forall>e \<in> set evs. fst e < length ps"
  shows "eligibleOf qs p evs = eligibleOf ps p evs"
  unfolding eligibleOf_def
  using assms(2) seats_fields(1)[OF assms(1)] by (intro filter_cong) auto

lemma entries_seats:
  assumes "seats ps = seats qs" "\<forall>e \<in> set es. fst e < length ps"
  shows "entries qs sh k es = entries ps sh k es"
  unfolding entries_def
  using assms(2) seats_fields(1,2)[OF assms(1)] by (intro map_cong) auto

lemma payPot_again:
  assumes "seats ps = seats qs" "\<forall>e \<in> set evs. fst e < length ps"
    and "payPot evs k p (ps, ws) = Inr (ps', ws')"
  shows "\<exists>qs'. payPot evs k p (qs, ws) = Inr (qs', ws')
           \<and> seats ps' = seats ps \<and> seats qs' = seats qs
           \<and> (\<forall>i < length ps. chips (qs' ! i) - chips (qs ! i) = chips (ps' ! i) - chips (ps ! i))"
proof -
  have len: "length qs = length ps" using seats_length[OF assms(1)] by simp
  define el where "el = eligibleOf ps p evs"
  define es where "es = winnersOf el"
  define sh where "sh = amount p div int (length es)"
  have el_q: "eligibleOf qs p evs = el"
    unfolding el_def by (rule eligibleOf_seats[OF assms(1,2)])
  have sub: "\<forall>e \<in> set es. fst e < length ps"
    using assms(2) by (auto simp: es_def el_def winnersOf_def eligibleOf_def)
  have en: "entries qs sh k es = entries ps sh k es"
    by (rule entries_seats[OF assms(1) sub])
  have up: "payPot evs k p (ps, ws) =
     (if amount p = 0 \<or> el = [] then Inr (ps, ws)
      else if \<exists>e \<in> set el. snd e = None then Inl TypeError
      else Inr (fold (\<lambda>e. modify (fst e) (pay sh)) es ps, ws @ entries ps sh k es))"
    unfolding el_def es_def sh_def by (rule payPot_unfold)
  have uq: "payPot evs k p (qs, ws) =
     (if amount p = 0 \<or> el = [] then Inr (qs, ws)
      else if \<exists>e \<in> set el. snd e = None then Inl TypeError
      else Inr (fold (\<lambda>e. modify (fst e) (pay sh)) es qs, ws @ entries ps sh k es))"
    using payPot_unfold[of evs k p qs ws] unfolding el_q es_def[symmetric] sh_def[symmetric] en .
  show ?thesis
  proof (cases "amount p = 0 \<or> el = []")
    case True
    then show ?thesis using up uq assms(3) by simp
  next
    case False
    then have ne: "\<not> (\<exists>e \<in> set el. snd e = None)"
      using up assms(3) by (auto split: if_splits)
    have p': "ps' = fold (\<lambda>e. modify (fst e) (pay sh)) es ps"
      and w': "ws' = ws @ entries ps sh k es"
      using up assms(3) False ne by simp_all
    have q: "payPot evs k p (qs, ws) = Inr (fold (\<lambda>e. modify (fst e) (pay sh)) es qs, ws')"
      using uq False ne w' by simp
    show ?thesis
      using q payFold[of sh es ps] payFold[of sh es qs] len by (simp add: p')
  qed
qed


lemma payPots_again:
  assumes "seats ps = seats qs" "\<forall>e \<in> set evs. fst e < length ps"
    and "payPots evs k pts (ps, ws) = Inr (ps', ws')"
  shows "\<exists>qs'. payPots evs k pts (qs, ws) = Inr (qs', ws')
           \<and> seats ps' = seats ps \<and> seats qs' = seats qs
           \<and> (\<forall>i < length ps. chips (qs' ! i) - chips (qs ! i) = chips (ps' ! i) - chips (ps ! i))"
  using assms
proof (induction pts arbitrary: k ps qs ws)
  case Nil
  then show ?case by simp
next
  case (Cons p rest)
  obtain ps1 ws1 where one: "payPot evs k p (ps, ws) = Inr (ps1, ws1)"
    and more: "payPots evs (k + 1) rest (ps1, ws1) = Inr (ps', ws')"
    using Cons.prems(3) by (auto split: sum.splits)
  obtain qs1 where q1: "payPot evs k p (qs, ws) = Inr (qs1, ws1)"
    and s1: "seats ps1 = seats ps" "seats qs1 = seats qs"
    and d1: "\<forall>i < length ps. chips (qs1 ! i) - chips (qs ! i) = chips (ps1 ! i) - chips (ps ! i)"
    using payPot_again[OF Cons.prems(1,2) one] by blast
  have l1: "length ps1 = length ps" using seats_length[OF s1(1)] .
  have s11: "seats ps1 = seats qs1" using s1 Cons.prems(1) by simp
  have r1: "\<forall>e \<in> set evs. fst e < length ps1" using Cons.prems(2) l1 by simp
  obtain qs' where q': "payPots evs (k + 1) rest (qs1, ws1) = Inr (qs', ws')"
    and s2: "seats ps' = seats ps1" "seats qs' = seats qs1"
    and d2: "\<forall>i < length ps1. chips (qs' ! i) - chips (qs1 ! i) = chips (ps' ! i) - chips (ps1 ! i)"
    using Cons.IH[OF s11 r1 more] by blast
  have "payPots evs k (p # rest) (qs, ws) = Inr (qs', ws')"
    using q1 q' by simp
  moreover have "\<forall>i < length ps. chips (qs' ! i) - chips (qs ! i) = chips (ps' ! i) - chips (ps ! i)"
  proof (intro allI impI)
    fix i assume i: "i < length ps"
    have "chips (qs1 ! i) - chips (qs ! i) = chips (ps1 ! i) - chips (ps ! i)"
      using d1 i by simp
    moreover have "chips (qs' ! i) - chips (qs1 ! i) = chips (ps' ! i) - chips (ps1 ! i)"
      using d2 i l1 by simp
    ultimately show "chips (qs' ! i) - chips (qs ! i) = chips (ps' ! i) - chips (ps ! i)"
      by linarith
  qed
  ultimately show ?case using s1 s2 by simp
qed

lemma evaluateAll_seats:
  assumes "seats ps = seats qs" "\<forall>i \<in> set A. i < length ps"
  shows "evaluateAll qs cc A = evaluateAll ps cc A"
  using assms(2)
proof (induction A)
  case Nil
  then show ?case by simp
next
  case (Cons i A)
  have h: "hand (qs ! i) = hand (ps ! i)"
    using seats_fields(3)[OF assms(1), of i] Cons.prems by simp
  have ih: "evaluateAll qs cc A = evaluateAll ps cc A"
    using Cons by simp
  show ?case by (simp only: evaluateAll.simps h ih)
qed

lemma evaluateAll_positions: "evaluateAll ps cc A = Inr evs \<Longrightarrow> map fst evs = A"
  by (induction A arbitrary: evs) (auto split: sum.splits)

lemma positionsWhere_seats:
  assumes "seats ps = seats qs"
  shows "positionsWhere (\<lambda>p. \<not> hasFolded p) qs = positionsWhere (\<lambda>p. \<not> hasFolded p) ps"
  unfolding positionsWhere_def seats_length[OF assms, symmetric]
  using seats_fields(4)[OF assms] by (intro filter_cong) auto

lemma collectBets_idle:
  assumes "\<forall>p \<in> set ps. \<not> 0 < currentBet p"
  shows "collectBets ps pts = (ps, pts)"
  using assms by (simp add: collectBets_def filter_empty_conv)

lemma seats_bets: "seats ps = seats qs \<Longrightarrow> map currentBet ps = map currentBet qs"
proof -
  assume a: "seats ps = seats qs"
  have "map currentBet (seats xs) = map currentBet xs" for xs
    by (simp add: seats_def)
  then show ?thesis using a by metis
qed


lemma settle_again:
  assumes "settle A ps h r = Inr r1" "\<forall>i \<in> set A. i < length ps"
  shows "\<exists>h1. handState r1 = Some h1 \<and> pots h1 = pots h
             \<and> seats (players r1) = seats ps
             \<and> (\<exists>r2. settle A (players r1) h1 r1 = Inr r2
                   \<and> length (players r2) = length ps
                   \<and> (\<forall>i < length ps. chips (players r2 ! i) - chips (players r1 ! i)
                                        = chips (players r1 ! i) - chips (ps ! i)))"
proof (cases "length A = 1")
  case True
  define T where "T = sum_list (map amount (pots h))"
  define ps1 where "ps1 = modify (A ! 0) (pay T) ps"
  have r1: "players r1 = ps1"
    "\<exists>ws. handState r1 = Some (h\<lparr>winners := ws, phase := Showdown\<rparr>)"
    using assms(1) True unfolding settle_def Let_def ps1_def T_def pay_def by auto
  obtain ws where h1: "handState r1 = Some (h\<lparr>winners := ws, phase := Showdown\<rparr>)"
    using r1(2) by blast
  have s1: "seats ps1 = seats ps"
    unfolding seats_def ps1_def by (rule map_modify) (simp add: pay_def)
  have l1: "length ps1 = length ps" by (simp add: ps1_def length_modify)
  have second: "\<exists>r2. settle A ps1 (h\<lparr>winners := ws, phase := Showdown\<rparr>) r1 = Inr r2
                   \<and> players r2 = modify (A ! 0) (pay T) ps1"
    using True unfolding settle_def Let_def T_def pay_def by simp
  then obtain r2 where r2: "settle A ps1 (h\<lparr>winners := ws, phase := Showdown\<rparr>) r1 = Inr r2"
      "players r2 = modify (A ! 0) (pay T) ps1"
    by blast
  have "chips (players r2 ! i) - chips (ps1 ! i) = chips (ps1 ! i) - chips (ps ! i)"
    if "i < length ps" for i
    using that l1 by (simp add: r2(2) nth_modify ps1_def pay_def)
  then show ?thesis
    using r1(1) h1 s1 r2 l1 by (auto simp: length_modify)
next
  case False
  obtain evs where ev: "evaluateAll ps (communityCards h) A = Inr evs"
    using assms(1) False unfolding settle_def by (auto split: sum.splits)
  obtain ps1 ws where pp: "payPots evs 0 (pots h) (ps, []) = Inr (ps1, ws)"
    using assms(1) False ev unfolding settle_def by (auto split: sum.splits prod.splits)
  have r1: "r1 = r\<lparr>players := ps1, handState := Some (h\<lparr>winners := ws, phase := Showdown\<rparr>)\<rparr>"
    using assms(1) False ev pp unfolding settle_def by simp
  have pos: "\<forall>e \<in> set evs. fst e < length ps"
    using evaluateAll_positions[OF ev] assms(2) by (metis (no_types, lifting) image_eqI list.set_map)
  obtain qs' where again: "payPots evs 0 (pots h) (ps, []) = Inr (ps1, ws)"
      "seats ps1 = seats ps"
    using pp payPots_again[OF refl pos pp] by blast
  have s: "seats ps = seats ps1" using again(2) by simp
  obtain qs2 where q2: "payPots evs 0 (pots h) (ps1, []) = Inr (qs2, ws)"
      "seats qs2 = seats ps1"
      "\<forall>i < length ps. chips (qs2 ! i) - chips (ps1 ! i) = chips (ps1 ! i) - chips (ps ! i)"
    using payPots_again[OF s pos pp] by blast
  have ev1: "evaluateAll ps1 (communityCards h) A = Inr evs"
    using evaluateAll_seats[OF s assms(2)] ev by simp
  have "settle A ps1 (h\<lparr>winners := ws, phase := Showdown\<rparr>) r1
          = Inr (r1\<lparr>players := qs2,
                    handState := Some (h\<lparr>winners := ws, phase := Showdown\<rparr>)\<rparr>)"
    using False ev1 q2(1) unfolding settle_def by simp
  moreover have "length qs2 = length ps"
    using seats_length[OF q2(2)] seats_length[OF s] by simp
  ultimately show ?thesis
    using q2(3) again(2) by (simp add: r1)
qed

text \<open>
  C4, as amended. Settlement is not idempotent: \<^verbatim>\<open>endHand\<close> pays from the pots and
  leaves their amounts in place. A second run on the room the first run left returns as
  well and pays every player once more exactly what the first run paid: the chips after
  the second run are the chips after the first plus the first run's payment, so they
  are the same only for a player the first run paid nothing.
\<close>

theorem settlement_pays_again:
  assumes "endHand r = Inr r1" "handState r = Some hs"
  shows "\<exists>r2. endHand r1 = Inr r2
            \<and> length (players r2) = length (players r)
            \<and> (\<forall>i < length (players r).
                  chips (players r2 ! i)
                    = chips (players r1 ! i) + (chips (players r1 ! i) - chips (players r ! i)))"
proof -
  define A where "A = positionsWhere (\<lambda>p. \<not> hasFolded p) (players r)"
  define ps where "ps = fst (collectBets (players r) (pots hs))"
  define h where "h = hs\<lparr>pots := snd (collectBets (players r) (pots hs))\<rparr>"
  have first: "settle A ps h r = Inr r1"
    using assms by (simp add: endHand_def Let_def A_def ps_def h_def)
  have ps_eq: "ps = map drained (players r)"
    by (simp add: ps_def collectBets_eq_loop collectLoop_players)
  have len: "length ps = length (players r)" by (simp add: ps_eq)
  have ch: "chips (ps ! i) = chips (players r ! i)" if "i < length (players r)" for i
    using that by (simp add: ps_eq drained_def)
  have inr: "\<forall>i \<in> set A. i < length ps"
    using positionsWhere_bound[of _ "\<lambda>p. \<not> hasFolded p" "players r"] by (auto simp: A_def len)
  have A_ps: "positionsWhere (\<lambda>p. \<not> hasFolded p) ps = A"
    unfolding A_def positionsWhere_def ps_eq by (intro filter_cong) (simp_all add: drained_def)
  have idle: "\<forall>p \<in> set ps. \<not> 0 < currentBet p"
    by (auto simp: ps_eq drained_def)
  obtain h1 r2 where h1: "handState r1 = Some h1" "pots h1 = pots h"
      and s1: "seats (players r1) = seats ps"
      and r2: "settle A (players r1) h1 r1 = Inr r2" "length (players r2) = length ps"
        "\<forall>i < length ps. chips (players r2 ! i) - chips (players r1 ! i)
                                        = chips (players r1 ! i) - chips (ps ! i)"
    using settle_again[OF first inr] by blast
  have A1: "positionsWhere (\<lambda>p. \<not> hasFolded p) (players r1) = A"
    using positionsWhere_seats[of ps "players r1"] s1 A_ps by simp
  have "map currentBet (players r1) = map currentBet ps"
    using seats_bets[OF s1] .
  then have "currentBet ` set (players r1) = currentBet ` set ps"
    by (metis image_set)
  then have idle1: "\<forall>p \<in> set (players r1). \<not> 0 < currentBet p"
    using idle by (metis (no_types, lifting) image_iff)
  have "endHand r1 = settle A (players r1) h1 r1"
    using h1(1) A1 collectBets_idle[OF idle1] by (simp add: endHand_def Let_def)
  then have "endHand r1 = Inr r2" using r2(1) by simp
  moreover have "chips (players r2 ! i)
      = chips (players r1 ! i) + (chips (players r1 ! i) - chips (players r ! i))"
    if "i < length (players r)" for i
    using r2(3) that ch[OF that] len by (simp add: algebra_simps) (metis add_diff_cancel_left' diff_add_cancel add.commute)
  ultimately show ?thesis using r2(2) len by simp
qed


theorem settlement_pays_again_witness:
  "chips (players (roomOf (endHand settledOnce)) ! 1)
     = chips (players settledOnce ! 1)
        + (chips (players settledOnce ! 1) - chips (players riverTable ! 1))
   \<and> chips (players settledOnce ! 1) - chips (players riverTable ! 1) = 200"
proof -
  have 1: "endHand riverTable = Inr settledOnce"
    unfolding settledOnce_def riverTable_def riverState_def afterBlinds_def blindsState_def
      seat_def annCards_def bobCards_def
    by code_simp
  have 2: "handState riverTable = Some riverState"
    by (simp add: riverTable_def)
  have 3: "length (players riverTable) = 2"
    by (simp add: riverTable_def)
  have 4: "chips (players settledOnce ! 1) - chips (players riverTable ! 1) = 200"
    unfolding settledOnce_def riverTable_def riverState_def afterBlinds_def blindsState_def
      seat_def annCards_def bobCards_def
    by code_simp
  obtain r2 where r2: "endHand settledOnce = Inr r2"
    "\<forall>i < length (players riverTable).
        chips (players r2 ! i)
          = chips (players settledOnce ! i)
             + (chips (players settledOnce ! i) - chips (players riverTable ! i))"
    using settlement_pays_again [OF 1 2] by blast
  have "chips (players r2 ! 1)
          = chips (players settledOnce ! 1)
             + (chips (players settledOnce ! 1) - chips (players riverTable ! 1))"
    using r2(2) 3 by simp
  then show ?thesis using r2(1) 4 by (simp add: roomOf_def)
qed

text \<open>
  C4, as stated, fails on this hand of two non-folded players: the first settlement takes Bob from 900 to
  1100 chips, the second from 1100 to 1300.
\<close>

theorem settlement_paid_twice:
  "map chips (players riverTable) = [900, 900]
   \<and> map chips (players (roomOf (endHand riverTable))) = [900, 1100]
   \<and> map chips (players (roomOf (endHand (roomOf (endHand riverTable))))) = [900, 1300]
   \<and> isl (endHand riverTable) = False
   \<and> isl (endHand (roomOf (endHand riverTable))) = False
   \<and> length (positionsWhere (\<lambda>p. \<not> hasFolded p) (players riverTable)) = 2"
  unfolding riverTable_def riverState_def afterBlinds_def blindsState_def
    seat_def annCards_def bobCards_def
  by code_simp

section \<open>Chip conservation and the settlement\<close>

lemma collectBets_fair:
  assumes "\<forall>p \<in> set ps. fair p"
  shows "fst (collectBets ps pts) = map (\<lambda>p. p\<lparr>currentBet := 0\<rparr>) ps
       \<and> sum_list (map amount (snd (collectBets ps pts)))
           = sum_list (map amount pts) + sum_list (map currentBet ps)"
proof -
  have dr: "map drained ps = map (\<lambda>p. p\<lparr>currentBet := 0\<rparr>) ps"
    using assms by (auto simp: drained_def fair_def order_less_le)
  have pb: "posBets ps = sum_list (map currentBet ps)"
    unfolding posBets_def using assms by (induction ps) (auto simp: fair_def)
  show ?thesis
    using dr pb by (simp add: collectBets_eq_loop collectLoop_players collectLoop_amount)
qed

lemma street_chips:
  "map chips (fold (\<lambda>i. modify i resetForNewBettingRound) js (fst (collectBets ps pts)))
     = map chips ps"
proof -
  have "map chips (fold (\<lambda>i. modify i resetForNewBettingRound) js (fst (collectBets ps pts)))
          = map chips (fst (collectBets ps pts))"
    using map_fold_modify[of chips resetForNewBettingRound "\<lambda>j qs. True" js]
    by (simp add: resetForNewBettingRound_def)
  also have "\<dots> = map chips ps"
    by (simp add: collectBets_eq_loop collectLoop_players drained_def o_def)
  finally show ?thesis .
qed

text \<open>
  \<^verbatim>\<open>endHand\<close> moves the bets into the pots and writes to nothing but the chips, the
  winners and the phase: the bets and the pot amounts together are what they were.
\<close>

lemma endHand_pays:
  assumes "endHand r = Inr r'" "handState r = Some hs" "\<forall>p \<in> set (players r). fair p"
  shows "totalChips r' - sum_list (map chips (players r'))
           = totalChips r - sum_list (map chips (players r))"
proof -
  define A where "A = positionsWhere (\<lambda>p. \<not> hasFolded p) (players r)"
  define ps where "ps = fst (collectBets (players r) (pots hs))"
  define h where "h = hs\<lparr>pots := snd (collectBets (players r) (pots hs))\<rparr>"
  have first: "settle A ps h r = Inr r'"
    using assms(1,2) by (simp add: endHand_def Let_def A_def ps_def h_def)
  have c: "ps = map (\<lambda>p. p\<lparr>currentBet := 0\<rparr>) (players r)"
    "sum_list (map amount (pots h))
       = sum_list (map amount (pots hs)) + sum_list (map currentBet (players r))"
    using collectBets_fair[OF assms(3), of "pots hs"] by (simp_all add: ps_def h_def)
  have inr: "\<forall>i \<in> set A. i < length ps"
    using positionsWhere_bound[of _ "\<lambda>p. \<not> hasFolded p" "players r"] by (auto simp: A_def c(1))
  obtain h1 where h1: "handState r' = Some h1" "pots h1 = pots h"
      and s1: "seats (players r') = seats ps"
    using settle_again[OF first inr] by blast
  have "map currentBet (players r') = map currentBet ps"
    using seats_bets[OF s1] .
  then have "sum_list (map currentBet (players r')) = 0"
    by (simp add: c(1) o_def)
  then show ?thesis
    using h1 c(2) assms(2) by (simp add: totalChips_def)
qed

lemma processBettingRound_pays:
  assumes "processBettingRound r = Some (Inr r')" "nonNegative r"
  shows "totalChips r' - sum_list (map chips (players r'))
           = totalChips r - sum_list (map chips (players r))"
proof (cases "handState r")
  case None
  then have "r' = r" using assms(1) by (simp add: processBettingRound_def)
  then show ?thesis by simp
next
  case (Some hs)
  have f: "\<forall>p \<in> set (players r). fair p"
    using assms(2) by (simp add: nonNegative_fair)
  define c where "c = collectBets (players r) (pots hs)"
  have cf: "fst c = map (\<lambda>p. p\<lparr>currentBet := 0\<rparr>) (players r)"
    "sum_list (map amount (snd c))
       = sum_list (map amount (pots hs)) + sum_list (map currentBet (players r))"
    using collectBets_fair[OF f, of "pots hs"] by (simp_all add: c_def)
  from processBettingRound_result[OF assms(1) Some]
  show ?thesis
  proof (elim disjE conjE exE)
    assume "r' = r"
    then show ?thesis by simp
  next
    assume "endHand r = Inr r'"
    then show ?thesis using Some f by (rule endHand_pays)
  next
    assume e: "endHand (r\<lparr>players := fst (collectBets (players r) (pots hs)),
                     handState := Some (hs\<lparr>pots := snd (collectBets (players r) (pots hs))\<rparr>)\<rparr>) = Inr r'"
    define r2 where "r2 = r\<lparr>players := fst c, handState := Some (hs\<lparr>pots := snd c\<rparr>)\<rparr>"
    have e2: "endHand r2 = Inr r'" using e by (simp add: r2_def c_def)
    have h2: "handState r2 = Some (hs\<lparr>pots := snd c\<rparr>)" by (simp add: r2_def)
    have f2: "\<forall>p \<in> set (players r2). fair p"
      using f by (auto simp: r2_def cf(1) fair_def)
    have "totalChips r' - sum_list (map chips (players r'))
            = totalChips r2 - sum_list (map chips (players r2))"
      using e2 h2 f2 by (rule endHand_pays)
    also have "\<dots> = totalChips r - sum_list (map chips (players r))"
      using Some cf(2) by (simp add: totalChips_def r2_def cf(1) o_def)
    finally show ?thesis .
  next
    fix h
    assume ps: "players r' = fold (\<lambda>i. modify i resetForNewBettingRound)
                           (activePositions (players r))
                           (fst (collectBets (players r) (pots hs)))"
      and h: "handState r' = Some h" "hsCurrentBet h = 0"
             "pots h = snd (collectBets (players r) (pots hs))"
    have t: "totalChips r' = totalChips r"
      using street_players[OF f, of "activePositions (players r)" "pots hs"] Some
      by (simp add: ps h totalChips_funds)
    have "map chips (players r') = map chips (players r)"
      unfolding ps by (rule street_chips)
    then show ?thesis using t by simp
  qed
qed

text \<open>The example hand, played from the lobby to the river.\<close>

lemma flop_reached: "inHand lobby onFlop"
proof -
  have a: "2 \<le> length (positionsWhere (\<lambda>p. 0 < chips p) (players lobby))"
    unfolding lobby_def by code_simp
  have b: "\<forall>p \<in> set (players lobby). 0 \<le> chips p"
    by (simp add: lobby_def newPlayer_def)
  have 0: "inHand lobby afterBlinds"
    using inHand.start[OF a b, of demoDeck] by (simp add: startHand_lobby)
  have 1: "handlePlayerAction afterBlinds ''a'' Call = Inr afterCall"
    unfolding afterBlinds_def afterCall_def blindsState_def seat_def annCards_def bobCards_def
    by code_simp
  have 2: "handlePlayerAction afterCall ''b'' Check = Inr afterCheck"
    unfolding afterBlinds_def afterCall_def afterCheck_def blindsState_def seat_def
      annCards_def bobCards_def
    by code_simp
  have 3: "processBettingRound afterCheck = Some (Inr onFlop)"
    unfolding afterBlinds_def afterCheck_def onFlop_def flopState_def blindsState_def seat_def
      annCards_def bobCards_def
    by code_simp
  have 4: "handState onFlop = Some flopState"
    by (simp add: onFlop_def)
  have 5: "phase flopState \<noteq> Showdown"
    by (simp add: flopState_def)
  show ?thesis
    using inHand.street[OF inHand.action[OF inHand.action[OF 0 1] 2] 3 4 5] .
qed

lemma onFlop_table: "onFlop = tableAt Flop 3 False False 0"
  unfolding onFlop_def afterBlinds_def tableAt_def boardCards_def flopState_def blindsState_def
    seat_def annCards_def bobCards_def
  by code_simp

lemma checks:
  "handlePlayerAction (tableAt Flop 3 False False 0) ''a'' Check = Inr (tableAt Flop 3 True False 1)"
  "handlePlayerAction (tableAt Flop 3 True False 1) ''b'' Check = Inr (tableAt Flop 3 True True 0)"
  "handlePlayerAction (tableAt Turn 4 False False 0) ''a'' Check = Inr (tableAt Turn 4 True False 1)"
  "handlePlayerAction (tableAt Turn 4 True False 1) ''b'' Check = Inr (tableAt Turn 4 True True 0)"
  "handlePlayerAction (tableAt River 5 False False 0) ''a'' Check = Inr (tableAt River 5 True False 1)"
  "handlePlayerAction (tableAt River 5 True False 1) ''b'' Check = Inr (tableAt River 5 True True 0)"
  unfolding tableAt_def boardCards_def flopState_def blindsState_def seat_def annCards_def
    bobCards_def
  by code_simp+

lemma streets:
  "processBettingRound (tableAt Flop 3 True True 0) = Some (Inr (tableAt Turn 4 False False 0))"
  "processBettingRound (tableAt Turn 4 True True 0) = Some (Inr (tableAt River 5 False False 0))"
  unfolding tableAt_def boardCards_def flopState_def blindsState_def seat_def annCards_def
    bobCards_def
  by code_simp+

lemma river_reached: "inHand lobby riverChecked"
proof -
  have 0: "inHand lobby (tableAt Flop 3 False False 0)"
    using flop_reached by (simp add: onFlop_table)
  have 1: "inHand lobby (tableAt Flop 3 True True 0)"
    using inHand.action[OF inHand.action[OF 0 checks(1)] checks(2)] .
  have 2: "inHand lobby (tableAt Turn 4 False False 0)"
    using inHand.street[OF 1 streets(1)] by (simp add: tableAt_def)
  have 3: "inHand lobby (tableAt Turn 4 True True 0)"
    using inHand.action[OF inHand.action[OF 2 checks(3)] checks(4)] .
  have 4: "inHand lobby (tableAt River 5 False False 0)"
    using inHand.street[OF 3 streets(2)] by (simp add: tableAt_def)
  show ?thesis
    unfolding riverChecked_def
    using inHand.action[OF inHand.action[OF 4 checks(5)] checks(6)] .
qed

lemma river_settled: "processBettingRound riverChecked = Some (Inr shown)"
  unfolding shown_def riverChecked_def tableAt_def boardCards_def flopState_def blindsState_def
    seat_def annCards_def bobCards_def
  by code_simp

text \<open>
  C1, as amended. In every state of a hand from its start up to its settlement (the state
  after the deal and the blinds, and every state reached from it by submitted actions,
  fold, check, call or raise, legal or not, and by street transitions with their bet
  collection that do not settle the hand) the chips of all players plus the current bets
  of all players plus the amounts of all pots equal the chips the players held when the
  hand started. A call of \<^verbatim>\<open>processBettingRound\<close> in such a state leaves the bets and
  the pot amounts together as they were; when it settles the hand (after the river, or
  with one active player left) the winners are paid and the pot amounts stay in place, so
  the quantity is then the starting total plus the chips paid out.
\<close>

theorem chip_conservation:
  assumes "inHand r0 s"
  shows "totalChips s = sum_list (map chips (players r0))
       \<and> (\<forall>s'. processBettingRound s = Some (Inr s') \<longrightarrow>
             totalChips s' = sum_list (map chips (players r0))
                 + (sum_list (map chips (players s')) - sum_list (map chips (players s))))"
proof -
  have inv: "nonNegative s \<and> totalChips s = sum_list (map chips (players r0))"
    using assms
  proof (induction rule: inHand.induct)
    case (start shuffled)
    then show ?case using startHand_sound[of r0 shuffled] by simp
  next
    case (action s playerId act s')
    then show ?case using handlePlayerAction_keeps[of s playerId act s'] by simp
  next
    case (street s s' hs')
    then show ?case using processBettingRound_keeps[of s s' hs'] by simp
  qed
  have "totalChips s' = sum_list (map chips (players r0))
          + (sum_list (map chips (players s')) - sum_list (map chips (players s)))"
    if "processBettingRound s = Some (Inr s')" for s'
    using processBettingRound_pays[OF that] inv by simp
  then show ?thesis using inv by simp
qed

theorem chip_conservation_witness:
  "inHand lobby riverChecked
   \<and> totalChips riverChecked = 2000
   \<and> processBettingRound riverChecked = Some (Inr shown)
   \<and> totalChips shown = 2000 + (sum_list (map chips (players shown))
                                   - sum_list (map chips (players riverChecked)))"
  using chip_conservation [OF river_reached] river_reached river_settled
  by (simp add: lobby_def newPlayer_def)

text \<open>
  C1, as stated, fails at the last street transition of this hand: on the river, both
  players having checked, the quantity is the 2000 chips the hand started with;
  \<^verbatim>\<open>processBettingRound\<close> then settles the hand, Bob is paid the pot of 40, the pot keeps
  its amount, and the quantity is 2040.
\<close>

theorem settlement_breaks_conservation:
  "inHand lobby riverChecked
   \<and> processBettingRound riverChecked = Some (Inr shown)
   \<and> sum_list (map chips (players lobby)) = 2000
   \<and> totalChips riverChecked = 2000
   \<and> map chips (players shown) = [980, 1020]
   \<and> map currentBet (players shown) = [0, 0]
   \<and> map_option (\<lambda>hs. map amount (pots hs)) (handState shown) = Some [40]
   \<and> totalChips shown = 2040"
proof -
  have "sum_list (map chips (players lobby)) = 2000"
    by (simp add: lobby_def newPlayer_def)
  moreover have "totalChips riverChecked = 2000"
    unfolding riverChecked_def tableAt_def boardCards_def flopState_def blindsState_def
      seat_def annCards_def bobCards_def totalChips_def
    by simp
  moreover have "totalChips shown = 2040"
    unfolding shown_def riverChecked_def tableAt_def boardCards_def flopState_def
      blindsState_def seat_def annCards_def bobCards_def totalChips_def
    by simp
  moreover have "map chips (players shown) = [980, 1020]"
    "map currentBet (players shown) = [0, 0]"
    "map_option (\<lambda>hs. map amount (pots hs)) (handState shown) = Some [40]"
    by (simp_all add: shown_def seat_def flopState_def blindsState_def)
  ultimately show ?thesis using river_reached river_settled by simp
qed

section \<open>The order of the cards\<close>

lemma those_map_Some:
  assumes "\<And>x. x \<in> set xs \<Longrightarrow> f x = Some (g x)"
  shows "those (map f xs) = Some (map g xs)"
  using assms by (induction xs) simp_all

lemma subseq_nth_drop:
  assumes "i < length xs" "subseq c (drop (Suc i) xs)"
  shows "subseq (xs ! i # c) xs"
proof -
  have "xs = take i xs @ xs ! i # drop (Suc i) xs"
    using assms(1) by (simp add: id_take_nth_drop)
  moreover have "subseq (xs ! i # c) (take i xs @ xs ! i # drop (Suc i) xs)"
    using assms(2) by (intro list_emb_append2) simp
  ultimately show ?thesis by simp
qed

lemma subseq_Cons_split:
  assumes "subseq (y # c) xs"
  shows "\<exists>i < length xs. xs ! i = y \<and> subseq c (drop (Suc i) xs)"
proof -
  obtain us vs where x: "xs = us @ y # vs" "subseq c vs"
    using list_emb_ConsD[OF assms] by blast
  have "length us < length xs" "xs ! length us = y" "drop (Suc (length us)) xs = vs"
    using x(1) by simp_all
  then show ?thesis using x(2) by blast
qed

lemma getCombinations_one: "getCombinations arr (Suc 0) = Some (map (\<lambda>x. [x]) arr)"
  by (subst getCombinations.simps) simp

lemma getCombinations_all:
  "length arr \<noteq> Suc 0 \<Longrightarrow> getCombinations arr (length arr) = Some [arr]"
  by (subst getCombinations.simps) simp

lemma getCombinations_rec:
  assumes "k \<noteq> Suc 0" "k \<noteq> length arr" "k \<noteq> 0"
  shows "getCombinations arr k =
           map_option concat
             (those (map (\<lambda>i. map_option (map ((#) (arr ! i)))
                                  (getCombinations (drop (i + 1) arr) (k - 1)))
                         [0..<length arr + 1 - k]))"
  using assms by (subst getCombinations.simps) simp

lemma getCombinations_sound:
  assumes "1 \<le> k"
  shows "\<exists>cs. getCombinations xs k = Some cs \<and> set cs = {c. subseq c xs \<and> length c = k}"
  using assms
proof (induction xs k rule: getCombinations.induct)
  case (1 arr k)
  show ?case
  proof (cases "k = 1")
    case True
    have "set (map (\<lambda>x. [x]) arr) = {c. subseq c arr \<and> length c = 1}"
    proof (intro set_eqI iffI)
      fix c assume "c \<in> set (map (\<lambda>x. [x]) arr)"
      then show "c \<in> {c. subseq c arr \<and> length c = 1}"
        by (auto simp: subseq_singleton_left)
    next
      fix c assume "c \<in> {c. subseq c arr \<and> length c = 1}"
      then obtain y where "c = [y]" "subseq [y] arr"
        by (cases c) auto
      then show "c \<in> set (map (\<lambda>x. [x]) arr)"
        by (auto simp: subseq_singleton_left)
    qed
    then show ?thesis using True by (simp add: getCombinations_one)
  next
    case k1: False
    show ?thesis
    proof (cases "k = length arr")
      case True
      have "c = arr" if "subseq c arr" "length c = length arr" for c
        using that by (rule subseq_same_length)
      then have "{c. subseq c arr \<and> length c = length arr} = {arr}"
        by auto
      moreover have "getCombinations arr (length arr) = Some [arr]"
        using True k1 by (intro getCombinations_all) simp
      ultimately show ?thesis unfolding True by simp
    next
      case kn: False
      have k0: "k \<noteq> 0" using "1.prems" by simp
      have k2: "1 \<le> k - 1" using "1.prems" k1 by simp
      define g where "g i = the (getCombinations (drop (i + 1) arr) (k - 1))" for i
      have ih: "getCombinations (drop (i + 1) arr) (k - 1) = Some (g i)
                \<and> set (g i) = {c. subseq c (drop (i + 1) arr) \<and> length c = k - 1}"
        if ir: "i \<in> set [0..<length arr + 1 - k]" for i
      proof -
        obtain cs where cs: "getCombinations (drop (i + 1) arr) (k - 1) = Some cs"
          "set cs = {c. subseq c (drop (i + 1) arr) \<and> length c = k - 1}"
          using "1.IH"[OF k1 kn k0 ir k2] by blast
        have "g i = cs" unfolding g_def cs(1) by simp
        then show ?thesis using cs by simp
      qed
      have th: "those (map (\<lambda>i. map_option (map ((#) (arr ! i)))
                                  (getCombinations (drop (i + 1) arr) (k - 1)))
                         [0..<length arr + 1 - k])
              = Some (map (\<lambda>i. map ((#) (arr ! i)) (g i)) [0..<length arr + 1 - k])"
      proof (rule those_map_Some)
        fix x assume x: "x \<in> set [0..<length arr + 1 - k]"
        have "getCombinations (drop (x + 1) arr) (k - 1) = Some (g x)"
          using ih[OF x] by (rule conjunct1)
        then show "map_option (map ((#) (arr ! x))) (getCombinations (drop (x + 1) arr) (k - 1))
                     = Some (map ((#) (arr ! x)) (g x))"
          by (simp only: option.map)
      qed
      have eq: "getCombinations arr k
              = Some (concat (map (\<lambda>i. map ((#) (arr ! i)) (g i)) [0..<length arr + 1 - k]))"
        using k1 kn k0 th by (simp add: getCombinations_rec)
      have "set (concat (map (\<lambda>i. map ((#) (arr ! i)) (g i)) [0..<length arr + 1 - k]))
              = {c. subseq c arr \<and> length c = k}"
      proof (intro set_eqI iffI)
        fix c assume "c \<in> set (concat (map (\<lambda>i. map ((#) (arr ! i)) (g i)) [0..<length arr + 1 - k]))"
        then obtain i c' where i: "i < length arr + 1 - k" and c': "c' \<in> set (g i)" "c = arr ! i # c'"
          by auto
        have "subseq c' (drop (Suc i) arr)" "length c' = k - 1"
          using ih[of i] i c'(1) by auto
        moreover have "i < length arr" using i k0 by simp
        ultimately show "c \<in> {c. subseq c arr \<and> length c = k}"
          using subseq_nth_drop[of i arr c'] c'(2) k0 by simp
      next
        fix c assume "c \<in> {c. subseq c arr \<and> length c = k}"
        then have c: "subseq c arr" "length c = k" by simp_all
        obtain y c' where yc: "c = y # c'" using c(2) k0 by (cases c) auto
        obtain i where i: "i < length arr" "arr ! i = y" "subseq c' (drop (Suc i) arr)"
          using subseq_Cons_split[of y c' arr] c(1) yc by blast
        have "length c' \<le> length (drop (Suc i) arr)"
          using i(3) by (rule list_emb_length)
        then have ir: "i < length arr + 1 - k" using c(2) yc i(1) by simp
        have "c' \<in> set (g i)"
          using ih[of i] ir i(3) c(2) yc by simp
        then show "c \<in> set (concat (map (\<lambda>i. map ((#) (arr ! i)) (g i)) [0..<length arr + 1 - k]))"
          using ir i(2) yc by auto
      qed
      then show ?thesis using eq by simp
    qed
  qed
qed


lemma subseq_mset: "subseq c xs \<Longrightarrow> mset c \<subseteq># mset xs"
proof (induction xs arbitrary: c)
  case Nil
  then show ?case by simp
next
  case (Cons x xs)
  show ?case
  proof (cases c)
    case Nil
    then show ?thesis by simp
  next
    case (Cons y c')
    show ?thesis
    proof (cases "x = y")
      case True
      then have "subseq c' xs" using Cons.prems Cons by simp
      then show ?thesis using Cons.IH[of c'] Cons True by simp
    next
      case False
      then have "subseq c xs" using Cons.prems Cons by simp
      then have "mset c \<subseteq># mset xs" by (rule Cons.IH)
      then show ?thesis
        by (metis mset.simps(2) subset_mset.add_increasing2 add_mset_add_single empty_le)
    qed
  qed
qed

lemma mset_subseq: "M \<subseteq># mset xs \<Longrightarrow> \<exists>c. subseq c xs \<and> mset c = M"
proof (induction xs arbitrary: M)
  case Nil
  then show ?case by simp
next
  case (Cons x xs)
  show ?case
  proof (cases "x \<in># M")
    case True
    then have "M - {#x#} \<subseteq># mset xs"
      using Cons.prems by (metis add_mset_remove_trivial mset.simps(2) subset_eq_diff_conv add_mset_add_single)
    then obtain c where "subseq c xs" "mset c = M - {#x#}"
      using Cons.IH by blast
    then have "subseq (x # c) (x # xs) \<and> mset (x # c) = M"
      using True by simp
    then show ?thesis by blast
  next
    case False
    then have "M \<subseteq># mset xs"
      using Cons.prems by (metis diff_single_trivial mset.simps(2) subset_eq_diff_conv add_mset_add_single)
    then obtain c where "subseq c xs" "mset c = M"
      using Cons.IH by blast
    then have "subseq c (x # xs) \<and> mset c = M" by (auto intro: list_emb.intros)
    then show ?thesis by blast
  qed
qed

lemma combination_bags:
  "mset ` {c. subseq c xs \<and> length c = k} = {M. M \<subseteq># mset xs \<and> size M = k}"
proof (intro set_eqI iffI)
  fix M assume "M \<in> mset ` {c. subseq c xs \<and> length c = k}"
  then show "M \<in> {M. M \<subseteq># mset xs \<and> size M = k}"
    using subseq_mset by auto
next
  fix M assume "M \<in> {M. M \<subseteq># mset xs \<and> size M = k}"
  then obtain c where "subseq c xs" "mset c = M" "size M = k"
    using mset_subseq[of M xs] by auto
  then show "M \<in> mset ` {c. subseq c xs \<and> length c = k}"
    by (metis (mono_tags, lifting) image_eqI mem_Collect_eq size_mset)
qed


lemma rankOrder_inj: "inj rankOrder"
proof (rule injI)
  fix a b assume "rankOrder a = rankOrder b"
  then show "a = b" by (cases a; cases b) simp_all
qed

lemma sorted_same_bag:
  fixes xs ys :: "int list"
  assumes "sorted xs" "sorted ys" "mset xs = mset ys"
  shows "xs = ys"
proof -
  have "sort ys = xs" using assms(3,1) by (rule properties_for_sort)
  moreover have "sort ys = ys" using assms(2) by (rule sorted_sort_id)
  ultimately show ?thesis by simp
qed

lemma sorted_ranks:
  assumes "mset c = mset c'"
  shows "map rank (sortDesc (\<lambda>c. rankOrder (rank c)) c)
       = map rank (sortDesc (\<lambda>c. rankOrder (rank c)) c')"
proof -
  let ?f = "\<lambda>c. - rankOrder (rank c)"
  have 1: "sorted (map ?f (sort_key ?f c))" "sorted (map ?f (sort_key ?f c'))"
    by simp_all
  have 2: "mset (map ?f (sort_key ?f c)) = mset (map ?f (sort_key ?f c'))"
    using assms by simp
  have "map ?f (sort_key ?f c) = map ?f (sort_key ?f c')"
    using sorted_same_bag[OF 1 2] .
  then have "map (\<lambda>r. - rankOrder r) (map rank (sort_key ?f c))
           = map (\<lambda>r. - rankOrder r) (map rank (sort_key ?f c'))"
    by (simp add: o_def)
  moreover have "inj (\<lambda>r. - rankOrder r)"
    using rankOrder_inj by (auto simp: inj_def)
  ultimately show ?thesis
    unfolding sortDesc_def by (simp only: inj_map_eq_map)
qed

lemma all_like_first:
  "(\<forall>s \<in> set xs. Some s = at xs 0) = (\<forall>s \<in> set xs. \<forall>t \<in> set xs. s = t)"
proof (cases xs)
  case Nil
  then show ?thesis by simp
next
  case (Cons x r)
  have "at xs 0 = Some x" by (simp add: Cons at_def)
  moreover have "x \<in> set xs" by (simp add: Cons)
  ultimately show ?thesis by (metis option.inject)
qed

lemma sorted_flush:
  assumes "mset c = mset c'"
  shows "(\<forall>s \<in> set (map suit (sortDesc (\<lambda>c. rankOrder (rank c)) c)).
            Some s = at (map suit (sortDesc (\<lambda>c. rankOrder (rank c)) c)) 0)
       = (\<forall>s \<in> set (map suit (sortDesc (\<lambda>c. rankOrder (rank c)) c')).
            Some s = at (map suit (sortDesc (\<lambda>c. rankOrder (rank c)) c')) 0)"
proof -
  have "set c = set c'" using assms by (rule mset_eq_setD)
  then have "set (map suit (sortDesc (\<lambda>c. rankOrder (rank c)) c))
           = set (map suit (sortDesc (\<lambda>c. rankOrder (rank c)) c'))"
    by (simp add: sortDesc_def)
  then show ?thesis unfolding all_like_first by simp
qed

lemma score_if: "score (if b then x else y) = (if b then score x else score y)"
  by simp

lemma five_score_cong:
  assumes R: "map rank (sortDesc (\<lambda>c. rankOrder (rank c)) c)
            = map rank (sortDesc (\<lambda>c. rankOrder (rank c)) c')"
    and F: "(\<forall>s \<in> set (map suit (sortDesc (\<lambda>c. rankOrder (rank c)) c)).
            Some s = at (map suit (sortDesc (\<lambda>c. rankOrder (rank c)) c)) 0)
       = (\<forall>s \<in> set (map suit (sortDesc (\<lambda>c. rankOrder (rank c)) c')).
            Some s = at (map suit (sortDesc (\<lambda>c. rankOrder (rank c)) c')) 0)"
  shows "score (evaluateFiveCards c) = score (evaluateFiveCards c')"
  unfolding evaluateFiveCards_def Let_def R F
  by (simp only: score_if evaluation.simps)

lemma five_score_bag:
  "mset c = mset c' \<Longrightarrow> score (evaluateFiveCards c) = score (evaluateFiveCards c')"
  by (rule five_score_cong[OF sorted_ranks sorted_flush])


lemma keepBest_cases:
  "keepBest c (bh, b) = (bh, b) \<and> (\<forall>v. score (evaluateFiveCards c) = Some v \<longrightarrow> v \<le> b)
   \<or> (\<exists>v. score (evaluateFiveCards c) = Some v \<and> b < v
          \<and> keepBest c (bh, b) = (Some (evaluateFiveCards c), v))"
  by (cases "score (evaluateFiveCards c)") (auto simp: keepBest_def Let_def)

lemma fold_keepBest:
  assumes "fold keepBest cs (bh, b) = (bh', b')"
  shows "b \<le> b'
       \<and> (\<forall>c \<in> set cs. \<forall>v. score (evaluateFiveCards c) = Some v \<longrightarrow> v \<le> b')
       \<and> ((b' = b \<and> bh' = bh)
          \<or> (b < b' \<and> (\<exists>c \<in> set cs. score (evaluateFiveCards c) = Some b')
               \<and> (\<exists>e. bh' = Some e \<and> score e = Some b')))"
  using assms
proof (induction cs arbitrary: bh b)
  case Nil
  then show ?case by simp
next
  case (Cons c cs)
  from keepBest_cases[of c bh b]
  show ?case
  proof (elim disjE conjE exE)
    assume k: "keepBest c (bh, b) = (bh, b)"
      and le: "\<forall>v. score (evaluateFiveCards c) = Some v \<longrightarrow> v \<le> b"
    have "fold keepBest cs (bh, b) = (bh', b')"
      using Cons.prems k by simp
    from Cons.IH[OF this] show ?thesis
      using le by (auto intro: order_trans)
  next
    fix v
    assume v: "score (evaluateFiveCards c) = Some v" "b < v"
      and k: "keepBest c (bh, b) = (Some (evaluateFiveCards c), v)"
    have "fold keepBest cs (Some (evaluateFiveCards c), v) = (bh', b')"
      using Cons.prems k by simp
    from Cons.IH[OF this] show ?thesis
      using v by auto
  qed
qed

lemma best_score_determined:
  assumes "fold keepBest cs (None, 0) = (bh, b)" "fold keepBest cs' (None, 0) = (bh', b')"
    and "(\<lambda>c. score (evaluateFiveCards c)) ` set cs = (\<lambda>c. score (evaluateFiveCards c)) ` set cs'"
  shows "map_option score bh = map_option score bh'"
proof -
  note 1 = fold_keepBest[OF assms(1)] and 2 = fold_keepBest[OF assms(2)]
  have mem: "(\<exists>c \<in> set cs. score (evaluateFiveCards c) = Some v)
           = (\<exists>c \<in> set cs'. score (evaluateFiveCards c) = Some v)" for v
    using assms(3) by (metis (mono_tags, lifting) image_iff)
  have up1: "\<forall>c \<in> set cs'. \<forall>v. score (evaluateFiveCards c) = Some v \<longrightarrow> v \<le> b"
    using 1 mem by blast
  have up2: "\<forall>c \<in> set cs. \<forall>v. score (evaluateFiveCards c) = Some v \<longrightarrow> v \<le> b'"
    using 2 mem by blast
  have "b' \<le> b" using 1 2 up1 by auto
  moreover have "b \<le> b'" using 1 2 up2 by auto
  ultimately have "b = b'" by simp
  then show ?thesis using 1 2 by auto
qed

text \<open>
  Five cards always get a positive score: the counts of the ranks are one of the
  partitions of five, and each branch finds the ranks it looks up.
\<close>

lemma rankOrder_pos: "2 \<le> rankOrder r"
  by (cases r) simp_all

lemma regularStraight_mem: "regularStraight xs = Some h \<Longrightarrow> h \<in> set xs"
  by (induction xs rule: regularStraight.induct) (auto split: if_splits)

lemma setOf_subset: "set (setOf xs) \<subseteq> set xs"
  by (induction xs rule: setOf.induct) auto

lemma countRank_distinct:
  "distinct (map fst m) \<Longrightarrow>
     distinct (map fst (countRank r m)) \<and> fst ` set (countRank r m) = insert r (fst ` set m)"
proof (induction m)
  case Nil
  then show ?case by simp
next
  case (Cons e m)
  obtain k n where e: "e = (k, n)" by (cases e)
  have ih: "distinct (map fst (countRank r m))" "fst ` set (countRank r m) = insert r (fst ` set m)"
    using Cons by simp_all
  show ?case
  proof (cases "k = r")
    case True
    then show ?thesis using Cons.prems e by auto
  next
    case False
    have "k \<notin> fst ` set (countRank r m)"
      using Cons.prems e False by (simp add: ih(2))
    then show ?thesis using False e ih by auto
  qed
qed

lemma countRank_sum: "sum_list (map snd (countRank r m)) = sum_list (map snd m) + 1"
  by (induction m) auto

lemma countRank_pos: "\<forall>e \<in> set m. 1 \<le> snd e \<Longrightarrow> \<forall>e \<in> set (countRank r m). 1 \<le> snd e"
proof (induction m)
  case Nil
  then show ?case by simp
next
  case (Cons e m)
  obtain k n where e: "e = (k, n)" by (cases e)
  have ih: "\<forall>e \<in> set (countRank r m). 1 \<le> snd e" using Cons by simp
  have n: "1 \<le> n" and rest: "\<forall>e \<in> set m. 1 \<le> snd e" using Cons.prems e by simp_all
  show ?case
  proof (cases "k = r")
    case True
    then show ?thesis using n rest by (simp add: e)
  next
    case False
    then show ?thesis using n ih by (simp add: e)
  qed
qed


lemma rankCounts_inv:
  assumes "distinct (map fst m)" "\<forall>e \<in> set m. 1 \<le> snd e"
  shows "distinct (map fst (foldl (\<lambda>m r. countRank r m) m rs))
       \<and> (\<forall>e \<in> set (foldl (\<lambda>m r. countRank r m) m rs). 1 \<le> snd e)
       \<and> sum_list (map snd (foldl (\<lambda>m r. countRank r m) m rs)) = sum_list (map snd m) + int (length rs)"
  using assms
proof (induction rs arbitrary: m)
  case Nil
  then show ?case by simp
next
  case (Cons r rs)
  have "distinct (map fst (countRank r m))" using countRank_distinct[OF Cons.prems(1)] by simp
  moreover have "\<forall>e \<in> set (countRank r m). 1 \<le> snd e" using Cons.prems(2) by (rule countRank_pos)
  ultimately show ?case
    using Cons.IH[of "countRank r m"] by (simp add: countRank_sum)
qed

lemma rankCountsOf_inv:
  "distinct (map fst (rankCountsOf rs))
   \<and> (\<forall>e \<in> set (rankCountsOf rs). 1 \<le> snd e)
   \<and> sum_list (map snd (rankCountsOf rs)) = int (length rs)"
  unfolding rankCountsOf_def using rankCounts_inv[of "[]" rs] by simp

lemma objectEntries_mset: "mset (objectEntries m) = mset m"
  by (simp add: objectEntries_def)

lemma objectValues_mset: "mset (objectValues m) = mset (map snd m)"
  unfolding objectValues_def using objectEntries_mset[of m] by (metis mset_map)

lemma withCount_keys:
  assumes "distinct (map fst m)"
  shows "length (filter (\<lambda>r. map_of m r = Some n) (objectKeys m))
       = length (filter (\<lambda>x. x = n) (sortDesc (\<lambda>n. n) (objectValues m)))"
proof -
  have st: "set (objectEntries m) = set m"
    using objectEntries_mset[of m] by (metis set_mset_mset)
  have "map_of m (fst e) = Some n \<longleftrightarrow> snd e = n" if "e \<in> set m" for e
  proof -
    have "map_of m (fst e) = Some (snd e)"
      using assms that by (cases e) simp
    then show ?thesis by auto
  qed
  then have "filter (\<lambda>e. map_of m (fst e) = Some n) (objectEntries m)
      = filter (\<lambda>e. snd e = n) (objectEntries m)"
    using st by (intro filter_cong) simp_all
  then have "length (filter (\<lambda>r. map_of m r = Some n) (objectKeys m))
      = length (filter (\<lambda>x. x = n) (objectValues m))"
    by (simp add: objectKeys_def objectValues_def filter_map o_def)
  also have "\<dots> = length (filter (\<lambda>x. x = n) (sortDesc (\<lambda>n. n) (objectValues m)))"
    by (simp add: sortDesc_def filter_sort)
  finally show ?thesis .
qed

lemma counts_facts:
  assumes "length rs = 5"
  shows "sum_list (sortDesc (\<lambda>n. n) (objectValues (rankCountsOf rs))) = 5
       \<and> (\<forall>x \<in> set (sortDesc (\<lambda>n. n) (objectValues (rankCountsOf rs))). 1 \<le> x)
       \<and> sorted (map uminus (sortDesc (\<lambda>n. n) (objectValues (rankCountsOf rs))))"
proof -
  let ?m = "rankCountsOf rs"
  let ?c = "sortDesc (\<lambda>n. n) (objectValues ?m)"
  have ms: "mset ?c = mset (map snd ?m)"
    by (simp add: sortDesc_def objectValues_mset)
  have "sum_list ?c = sum_list (map snd ?m)"
    using ms by (metis sum_mset_sum_list)
  then have 1: "sum_list ?c = 5"
    using rankCountsOf_inv[of rs] assms by simp
  have "set ?c = set (map snd ?m)"
    using ms by (metis set_mset_mset)
  then have 2: "\<forall>x \<in> set ?c. 1 \<le> x"
    using rankCountsOf_inv[of rs] by auto
  have 3: "sorted (map uminus ?c)"
    unfolding sortDesc_def using sorted_sort_key[of "\<lambda>x::int. - x"] by (simp add: uminus_int_def[symmetric] cong: map_cong)
  show ?thesis using 1 2 3 by simp
qed


lemma parts_nonneg: "\<forall>x \<in> set t. (1::int) \<le> x \<Longrightarrow> 0 \<le> sum_list t"
  by (induction t) auto

lemma parts0:
  assumes "\<forall>x \<in> set r. (1::int) \<le> x" "sum_list r = 0"
  shows "r = []"
proof (cases r)
  case Nil
  then show ?thesis .
next
  case (Cons a t)
  then have "1 \<le> a" "0 \<le> sum_list t"
    using assms(1) parts_nonneg[of t] by auto
  then show ?thesis using assms(2) Cons by simp
qed

lemma parts1:
  assumes "\<forall>x \<in> set r. (1::int) \<le> x" "sum_list r = 1"
  shows "r = [1]"
proof (cases r)
  case Nil
  then show ?thesis using assms(2) by simp
next
  case (Cons a t)
  then have a: "1 \<le> a" and t: "\<forall>x \<in> set t. 1 \<le> x"
    using assms(1) by auto
  have "0 \<le> sum_list t" using t by (rule parts_nonneg)
  then have "a = 1" "sum_list t = 0"
    using a assms(2) Cons by simp_all
  then show ?thesis using parts0[OF t] Cons by simp
qed

lemma parts2:
  assumes "\<forall>x \<in> set r. (1::int) \<le> x" "sum_list r = 2"
  shows "r = [2] \<or> r = [1, 1]"
proof (cases r)
  case Nil
  then show ?thesis using assms(2) by simp
next
  case (Cons a t)
  then have a: "1 \<le> a" and t: "\<forall>x \<in> set t. 1 \<le> x"
    using assms(1) by auto
  have "0 \<le> sum_list t" using t by (rule parts_nonneg)
  then have "a = 2 \<and> sum_list t = 0 \<or> a = 1 \<and> sum_list t = 1"
    using a assms(2) Cons by auto
  then show ?thesis using parts0[OF t] parts1[OF t] Cons by auto
qed

lemma parts3:
  assumes "\<forall>x \<in> set r. (1::int) \<le> x" "sum_list r = 3"
  shows "r = [3] \<or> r = [2, 1] \<or> r = [1, 2] \<or> r = [1, 1, 1]"
proof (cases r)
  case Nil
  then show ?thesis using assms(2) by simp
next
  case (Cons a t)
  then have a: "1 \<le> a" and t: "\<forall>x \<in> set t. 1 \<le> x"
    using assms(1) by auto
  have "0 \<le> sum_list t" using t by (rule parts_nonneg)
  then have "a = 3 \<and> sum_list t = 0 \<or> a = 2 \<and> sum_list t = 1 \<or> a = 1 \<and> sum_list t = 2"
    using a assms(2) Cons by auto
  then show ?thesis using parts0[OF t] parts1[OF t] parts2[OF t] Cons by auto
qed

lemma counts_shape:
  assumes "sum_list xs = (5::int)" "\<forall>x \<in> set xs. 1 \<le> x" "sorted (map uminus xs)"
  shows "at xs 0 = Some 4 \<Longrightarrow> xs = [4, 1]"
    and "at xs 0 = Some 3 \<Longrightarrow> at xs 1 = Some 2 \<Longrightarrow> xs = [3, 2]"
    and "at xs 0 = Some 3 \<Longrightarrow> at xs 1 \<noteq> Some 2 \<Longrightarrow> xs = [3, 1, 1]"
    and "at xs 0 = Some 2 \<Longrightarrow> at xs 1 = Some 2 \<Longrightarrow> xs = [2, 2, 1]"
    and "at xs 0 = Some 2 \<Longrightarrow> at xs 1 \<noteq> Some 2 \<Longrightarrow> xs = [2, 1, 1, 1]"
proof -
  obtain a t where xs: "xs = a # t"
    using assms(1) by (cases xs) auto
  have t: "\<forall>x \<in> set t. 1 \<le> x" and s: "sum_list t = 5 - a"
    using assms(1,2) xs by auto
  have a0: "at xs 0 = Some a" by (simp add: xs at_def)
  show "xs = [4, 1]" if "at xs 0 = Some 4"
    using that a0 s parts1[OF t] xs by simp
  have three: "t = [2] \<or> t = [1, 1]" if "a = 3"
    using that s parts2[OF t] by simp
  show "xs = [3, 2]" if "at xs 0 = Some 3" "at xs 1 = Some 2"
    using that a0 three xs by (auto simp: at_def)
  show "xs = [3, 1, 1]" if "at xs 0 = Some 3" "at xs 1 \<noteq> Some 2"
    using that a0 three xs by (auto simp: at_def)
  have two: "t = [2, 1] \<or> t = [1, 1, 1]" if "a = 2"
    using that s parts3[OF t] assms(3) xs by auto
  show "xs = [2, 2, 1]" if "at xs 0 = Some 2" "at xs 1 = Some 2"
    using that a0 two xs by (auto simp: at_def)
  show "xs = [2, 1, 1, 1]" if "at xs 0 = Some 2" "at xs 1 \<noteq> Some 2"
    using that a0 two xs by (auto simp: at_def)
qed


lemma find_filter: "filter P xs \<noteq> [] \<Longrightarrow> \<exists>x. find P xs = Some x"
  by (induction xs) (auto split: if_splits)

lemma positional_pos:
  assumes "length sv = 5" "\<forall>v \<in> set sv. 0 < v" "0 \<le> b"
  shows "\<exists>v. positional b sv = Some v \<and> 0 < v"
proof -
  have p: "0 < sv ! i" if "i < 5" for i
    using assms(1,2) that by simp
  have "positional b sv
      = Some (b + sv ! 0 * 100 ^ 4 + sv ! 1 * 100 ^ 3 + sv ! 2 * 100 ^ 2 + sv ! 3 * 100 ^ 1
                + sv ! 4 * 100 ^ 0)"
    using assms(1) by (simp add: positional_def at_def)
  moreover have "0 < b + sv ! 0 * 100 ^ 4 + sv ! 1 * 100 ^ 3 + sv ! 2 * 100 ^ 2 + sv ! 3 * 100 ^ 1
                + sv ! 4 * 100 ^ 0"
    using p[of 0] p[of 1] p[of 2] p[of 3] p[of 4] assms(3) by simp
  ultimately show ?thesis by simp
qed

lemma five_positive:
  assumes "length c = 5"
  shows "\<exists>v. score (evaluateFiveCards c) = Some v \<and> 0 < v"
proof -
  define srt where "srt = sortDesc (\<lambda>c. rankOrder (rank c)) c"
  define rs where "rs = map rank srt"
  define m where "m = rankCountsOf rs"
  define counts where "counts = sortDesc (\<lambda>n. n) (objectValues m)"
  define keys where "keys = objectKeys m"
  define sv where "sv = sortDesc (\<lambda>v. v) (map rankOrder rs)"
  define uv where "uv = sortDesc (\<lambda>v. v) (setOf sv)"
  define wh where "wh = (regularStraight uv = None \<and> 14 \<in> set uv \<and> 5 \<in> set uv
                  \<and> 4 \<in> set uv \<and> 3 \<in> set uv \<and> 2 \<in> set uv)"
  define sh where "sh = (case regularStraight uv of Some h \<Rightarrow> h | None \<Rightarrow> if wh then 5 else 0)"
  define fl where "fl = (\<forall>s \<in> set (map suit srt). Some s = at (map suit srt) 0)"
  define st where "st = (regularStraight uv \<noteq> None \<or> wh)"
  define good where "good = (\<lambda>s :: number. \<exists>v. s = Some v \<and> 0 < v)"
  define wc where "wc = (\<lambda>n r. map_of m r = Some n)"
  have eq: "score (evaluateFiveCards c) =
     (if fl \<and> st \<and> sh = 14 then Some (9000000 + sh)
      else if fl \<and> st then Some (8000000 + sh)
      else if at counts 0 = Some 4 then
        do { fourKind \<leftarrow> rankOrderOf (find (wc 4) keys);
             kicker \<leftarrow> rankOrderOf (find (wc 1) keys);
             Some (7000000 + fourKind * 100 + kicker) }
      else if at counts 0 = Some 3 \<and> at counts 1 = Some 2 then
        do { threeKind \<leftarrow> rankOrderOf (find (wc 3) keys);
             pair \<leftarrow> rankOrderOf (find (wc 2) keys);
             Some (6000000 + threeKind * 100 + pair) }
      else if fl then positional 5000000 sv
      else if st then Some (4000000 + sh)
      else if at counts 0 = Some 3 then
        do { threeKind \<leftarrow> rankOrderOf (find (wc 3) keys);
             k0 \<leftarrow> rankOrderOf (at (sortDesc rankOrder (filter (wc 1) keys)) 0);
             k1 \<leftarrow> rankOrderOf (at (sortDesc rankOrder (filter (wc 1) keys)) 1);
             Some (3000000 + threeKind * 10000 + k0 * 100 + k1) }
      else if at counts 0 = Some 2 \<and> at counts 1 = Some 2 then
        do { p0 \<leftarrow> rankOrderOf (at (sortDesc rankOrder (filter (wc 2) keys)) 0);
             p1 \<leftarrow> rankOrderOf (at (sortDesc rankOrder (filter (wc 2) keys)) 1);
             kicker \<leftarrow> rankOrderOf (find (wc 1) keys);
             Some (2000000 + p0 * 10000 + p1 * 100 + kicker) }
      else if at counts 0 = Some 2 then
        do { pair \<leftarrow> rankOrderOf (find (wc 2) keys);
             k0 \<leftarrow> rankOrderOf (at (sortDesc rankOrder (filter (wc 1) keys)) 0);
             k1 \<leftarrow> rankOrderOf (at (sortDesc rankOrder (filter (wc 1) keys)) 1);
             k2 \<leftarrow> rankOrderOf (at (sortDesc rankOrder (filter (wc 1) keys)) 2);
             Some (1000000 + pair * 10000 + k0 * 100 + k1 * 10 + k2) }
      else positional 0 sv)"
    unfolding evaluateFiveCards_def Let_def wc_def st_def fl_def sh_def wh_def uv_def sv_def
      keys_def counts_def m_def rs_def srt_def
    by (simp only: score_if evaluation.simps)
  have len: "length rs = 5"
    using assms by (simp add: rs_def srt_def sortDesc_def)
  have dist: "distinct (map fst m)"
    using rankCountsOf_inv[of rs] by (simp add: m_def)
  have cf: "sum_list counts = 5" "\<forall>x \<in> set counts. 1 \<le> x" "sorted (map uminus counts)"
    using counts_facts[OF len] by (simp_all add: counts_def m_def)
  note shape = counts_shape[OF cf]
  have num: "length (filter (wc n) keys) = length (filter (\<lambda>x. x = n) counts)" for n
    unfolding wc_def keys_def counts_def by (rule withCount_keys[OF dist])
  have fnd: "\<exists>r. find (wc n) keys = Some r" if "0 < length (filter (\<lambda>x. x = n) counts)" for n
    using that num[of n] by (intro find_filter) auto
  have kth: "\<exists>r. at (sortDesc rankOrder (filter (wc n) keys)) i = Some r"
    if "i < length (filter (\<lambda>x. x = n) counts)" for n i
    using that num[of n] by (simp add: at_def sortDesc_def)
  have ro: "0 < rankOrder r" for r
    using rankOrder_pos[of r] by simp
  have svlen: "length sv = 5"
    using len by (simp add: sv_def sortDesc_def)
  have svpos: "\<forall>v \<in> set sv. 0 < v"
    using ro by (auto simp: sv_def sortDesc_def)
  have uvpos: "\<forall>v \<in> set uv. 0 < v"
    using svpos setOf_subset[of sv] by (auto simp: uv_def sortDesc_def)
  have shpos: "0 \<le> sh"
  proof (cases "regularStraight uv")
    case None
    then show ?thesis by (simp add: sh_def)
  next
    case (Some h)
    then have "h \<in> set uv" by (rule regularStraight_mem)
    then show ?thesis using uvpos Some by (auto simp: sh_def)
  qed
  have g_st: "good (Some (b + sh))" if "0 < b" for b
    using shpos that by (simp add: good_def)
  have g_pos: "good (positional b sv)" if "0 \<le> b" for b
    using positional_pos[OF svlen svpos that] by (simp add: good_def)
  have g4: "good (do { fourKind \<leftarrow> rankOrderOf (find (wc 4) keys);
             kicker \<leftarrow> rankOrderOf (find (wc 1) keys);
             Some (7000000 + fourKind * 100 + kicker) })"
    if "at counts 0 = Some 4"
  proof -
    have c: "counts = [4, 1]" using shape(1)[OF that] .
    obtain a b where "find (wc 4) keys = Some a" "find (wc 1) keys = Some b"
      using fnd[of 4] fnd[of 1] c by auto
    then show ?thesis using ro[of a] ro[of b] by (simp add: good_def rankOrderOf_def)
  qed
  have g32: "good (do { threeKind \<leftarrow> rankOrderOf (find (wc 3) keys);
             pair \<leftarrow> rankOrderOf (find (wc 2) keys);
             Some (6000000 + threeKind * 100 + pair) })"
    if "at counts 0 = Some 3" "at counts 1 = Some 2"
  proof -
    have c: "counts = [3, 2]" using shape(2)[OF that] .
    obtain a b where "find (wc 3) keys = Some a" "find (wc 2) keys = Some b"
      using fnd[of 3] fnd[of 2] c by auto
    then show ?thesis using ro[of a] ro[of b] by (simp add: good_def rankOrderOf_def)
  qed
  have g3: "good (do { threeKind \<leftarrow> rankOrderOf (find (wc 3) keys);
             k0 \<leftarrow> rankOrderOf (at (sortDesc rankOrder (filter (wc 1) keys)) 0);
             k1 \<leftarrow> rankOrderOf (at (sortDesc rankOrder (filter (wc 1) keys)) 1);
             Some (3000000 + threeKind * 10000 + k0 * 100 + k1) })"
    if "at counts 0 = Some 3" "at counts 1 \<noteq> Some 2"
  proof -
    have c: "counts = [3, 1, 1]" using shape(3)[OF that] .
    obtain a b d where "find (wc 3) keys = Some a"
        "at (sortDesc rankOrder (filter (wc 1) keys)) 0 = Some b"
        "at (sortDesc rankOrder (filter (wc 1) keys)) 1 = Some d"
      using fnd[of 3] kth[of 0 1] kth[of 1 1] c by auto
    then show ?thesis using ro[of a] ro[of b] ro[of d] by (simp add: good_def rankOrderOf_def)
  qed
  have g22: "good (do { p0 \<leftarrow> rankOrderOf (at (sortDesc rankOrder (filter (wc 2) keys)) 0);
             p1 \<leftarrow> rankOrderOf (at (sortDesc rankOrder (filter (wc 2) keys)) 1);
             kicker \<leftarrow> rankOrderOf (find (wc 1) keys);
             Some (2000000 + p0 * 10000 + p1 * 100 + kicker) })"
    if "at counts 0 = Some 2" "at counts 1 = Some 2"
  proof -
    have c: "counts = [2, 2, 1]" using shape(4)[OF that] .
    obtain a b d where "find (wc 1) keys = Some a"
        "at (sortDesc rankOrder (filter (wc 2) keys)) 0 = Some b"
        "at (sortDesc rankOrder (filter (wc 2) keys)) 1 = Some d"
      using fnd[of 1] kth[of 0 2] kth[of 1 2] c by auto
    then show ?thesis using ro[of a] ro[of b] ro[of d] by (simp add: good_def rankOrderOf_def)
  qed
  have g2: "good (do { pair \<leftarrow> rankOrderOf (find (wc 2) keys);
             k0 \<leftarrow> rankOrderOf (at (sortDesc rankOrder (filter (wc 1) keys)) 0);
             k1 \<leftarrow> rankOrderOf (at (sortDesc rankOrder (filter (wc 1) keys)) 1);
             k2 \<leftarrow> rankOrderOf (at (sortDesc rankOrder (filter (wc 1) keys)) 2);
             Some (1000000 + pair * 10000 + k0 * 100 + k1 * 10 + k2) })"
    if "at counts 0 = Some 2" "at counts 1 \<noteq> Some 2"
  proof -
    have c: "counts = [2, 1, 1, 1]" using shape(5)[OF that] .
    obtain a b d e where "find (wc 2) keys = Some a"
        "at (sortDesc rankOrder (filter (wc 1) keys)) 0 = Some b"
        "at (sortDesc rankOrder (filter (wc 1) keys)) 1 = Some d"
        "at (sortDesc rankOrder (filter (wc 1) keys)) 2 = Some e"
      using fnd[of 2] kth[of 0 1] kth[of 1 1] kth[of 2 1] c by auto
    then show ?thesis using ro[of a] ro[of b] ro[of d] ro[of e]
      by (simp add: good_def rankOrderOf_def)
  qed
  have good_if: "good (if b then x else y)" if "b \<Longrightarrow> good x" "\<not> b \<Longrightarrow> good y" for b x y
    using that by simp
  have "good (score (evaluateFiveCards c))"
    unfolding eq
  proof (intro good_if)
    show "good (Some (9000000 + sh))" by (rule g_st) simp
    show "good (Some (8000000 + sh))" by (rule g_st) simp
    show "good (Some (4000000 + sh))" by (rule g_st) simp
    show "good (positional 5000000 sv)" by (rule g_pos) simp
    show "good (positional 0 sv)" by (rule g_pos) simp
  qed (blast intro: g4 g32 g3 g22 g2)+
  then show ?thesis by (simp add: good_def)
qed

lemma combination_exists:
  assumes "5 \<le> length cs"
  shows "\<exists>c. subseq c cs \<and> length c = 5"
proof -
  have "subseq (take 5 cs) cs"
    by (metis append_take_drop_id prefix_def prefix_imp_subseq)
  moreover have "length (take 5 cs) = 5" using assms by simp
  ultimately show ?thesis by blast
qed

lemma best_exists:
  assumes "fold keepBest co (None, 0) = (bh, b)"
    and "c \<in> set co" "length c = 5"
  shows "\<exists>e. bh = Some e \<and> score e = Some b \<and> 0 < b"
proof -
  obtain v where v: "score (evaluateFiveCards c) = Some v" "0 < v"
    using five_positive[OF assms(3)] by blast
  note f = fold_keepBest[OF assms(1)]
  have "v \<le> b" using f assms(2) v(1) by blast
  then have "0 < b" using v(2) by simp
  then show ?thesis using f by auto
qed

text \<open>
  C10. For every list of cards and every permutation of it, \<^verbatim>\<open>evaluateHand\<close> returns a
  hand for both (it neither runs out of stack nor returns \<^verbatim>\<open>null\<close>) and the two hands
  carry the same numeric score: the score depends on the multiset of the cards only. This
  covers the lists of five to seven cards and, with the invalid result of score 0, the
  shorter ones.
\<close>

theorem evaluateHand_order_insensitive:
  assumes "mset cs = mset cs'"
  shows "\<exists>e e' v. evaluateHand cs = Inr (Some e) \<and> evaluateHand cs' = Inr (Some e')
            \<and> score e = Some v \<and> score e' = Some v"
proof (cases "length cs < 5")
  case True
  moreover have "length cs' < 5"
    using True mset_eq_length[OF assms] by simp
  ultimately show ?thesis by (simp add: evaluateHand_def invalid_def)
next
  case False
  have len: "length cs = length cs'"
    using assms by (rule mset_eq_length)
  obtain co where co: "getCombinations cs 5 = Some co"
      "set co = {c. subseq c cs \<and> length c = 5}"
    using getCombinations_sound[of 5 cs] by auto
  obtain co' where co': "getCombinations cs' 5 = Some co'"
      "set co' = {c. subseq c cs' \<and> length c = 5}"
    using getCombinations_sound[of 5 cs'] by auto
  have bags: "mset ` set co = mset ` set co'"
    unfolding co(2) co'(2) combination_bags assms ..
  have sub: "(\<lambda>c. score (evaluateFiveCards c)) ` set xs \<subseteq> (\<lambda>c. score (evaluateFiveCards c)) ` set ys"
    if "mset ` set xs = mset ` set ys" for xs ys :: "card list list"
  proof
    fix s assume "s \<in> (\<lambda>c. score (evaluateFiveCards c)) ` set xs"
    then obtain c where c: "c \<in> set xs" "s = score (evaluateFiveCards c)" by blast
    then have "mset c \<in> mset ` set ys" using that by blast
    then obtain c' where c': "c' \<in> set ys" "mset c' = mset c" by auto
    have "score (evaluateFiveCards c') = s"
      using five_score_bag[OF c'(2)] c(2) by simp
    then show "s \<in> (\<lambda>c. score (evaluateFiveCards c)) ` set ys"
      using c'(1) by blast
  qed
  have scores: "(\<lambda>c. score (evaluateFiveCards c)) ` set co = (\<lambda>c. score (evaluateFiveCards c)) ` set co'"
    using sub[OF bags] sub[OF bags[symmetric]] by blast
  obtain bh b where r: "fold keepBest co (None, 0) = (bh, b)" by (cases "fold keepBest co (None, 0)")
  obtain bh' b' where r': "fold keepBest co' (None, 0) = (bh', b')" by (cases "fold keepBest co' (None, 0)")
  obtain c where c: "c \<in> set co" "length c = 5"
    using combination_exists[of cs] False co(2) by auto
  obtain c' where c': "c' \<in> set co'" "length c' = 5"
    using combination_exists[of cs'] False len co'(2) by auto
  obtain e where e: "bh = Some e" "score e = Some b"
    using best_exists[OF r c] by blast
  obtain e' where e': "bh' = Some e'" "score e' = Some b'"
    using best_exists[OF r' c'] by blast
  have "map_option score bh = map_option score bh'"
    by (rule best_score_determined[OF r r' scores])
  then have "b = b'" using e e' by simp
  then show ?thesis
    using False len co(1) co'(1) r r' e e' by (simp add: evaluateHand_def)
qed

theorem evaluateHand_order_insensitive_witness:
  "\<exists>e e'. evaluateHand royalSeven = Inr (Some e) \<and> evaluateHand (rev royalSeven) = Inr (Some e')
      \<and> score e = Some 1413121103 \<and> score e' = Some 1413121103"
proof -
  have m: "mset royalSeven = mset (rev royalSeven)" by simp
  have k: "map_sum id (map_option score) (evaluateHand royalSeven) = Inr (Some (Some 1413121103))"
    unfolding royalSeven_def by code_simp
  obtain e e' v where r: "evaluateHand royalSeven = Inr (Some e)"
      "evaluateHand (rev royalSeven) = Inr (Some e')" "score e = Some v" "score e' = Some v"
    using evaluateHand_order_insensitive [OF m] by blast
  have "v = 1413121103" using k r(1,3) by simp
  then show ?thesis using r by simp
qed

end
